theory Spec2Isabelle
  imports Main
begin

section \<open>Python values and exceptions\<close>

text \<open>
  The exceptions that the agent code can raise or let through. A function that can raise
  returns a sum whose left side carries the exception.
\<close>

datatype error =
    NotImplementedError
  | UnboundLocalError
  | KeyError
  | IndexError
  | TypeError
  | AttributeError
  | RequestException
  | ValueError

definition and_then :: "error + 'a \<Rightarrow> ('a \<Rightarrow> error + 'b) \<Rightarrow> error + 'b" where
  "and_then r f = (case r of Inl e \<Rightarrow> Inl e | Inr x \<Rightarrow> f x)"

subsection \<open>Text\<close>

text \<open>
  A Python \<open>str\<close> is modelled as a \<open>string\<close> whose characters are the code points
  U+0000 to U+00FF. The three tables below are Python's for that range:
  \<open>str.isspace\<close> (used by \<open>str.strip\<close>), the word characters of \<open>\w\<close> in \<open>re\<close>
  (alphanumeric or underscore) and the lower-casing that \<open>re.IGNORECASE\<close> compares with.
\<close>

definition is_space :: "char \<Rightarrow> bool" where
  "is_space c =
     (let n = (of_char c :: nat)
      in (9 \<le> n \<and> n \<le> 13) \<or> (28 \<le> n \<and> n \<le> 32) \<or> n = 133 \<or> n = 160)"

definition strip :: "string \<Rightarrow> string" where
  "strip s = rev (dropWhile is_space (rev (dropWhile is_space s)))"

definition is_word :: "char \<Rightarrow> bool" where
  "is_word c =
     (let n = (of_char c :: nat)
      in (48 \<le> n \<and> n \<le> 57) \<or> (65 \<le> n \<and> n \<le> 90) \<or> n = 95 \<or> (97 \<le> n \<and> n \<le> 122)
         \<or> n = 170 \<or> n = 178 \<or> n = 179 \<or> n = 181 \<or> n = 185 \<or> n = 186
         \<or> (188 \<le> n \<and> n \<le> 190) \<or> (192 \<le> n \<and> n \<le> 214)
         \<or> (216 \<le> n \<and> n \<le> 246) \<or> (248 \<le> n \<and> n \<le> 255))"

definition lower :: "char \<Rightarrow> char" where
  "lower c =
     (let n = (of_char c :: nat)
      in if (65 \<le> n \<and> n \<le> 90) \<or> (192 \<le> n \<and> n \<le> 214) \<or> (216 \<le> n \<and> n \<le> 222)
         then char_of (n + 32) else c)"

subsection \<open>The regular expression of \<open>LLMAgent.choose_action\<close>\<close>

text \<open>
  \<^verbatim>\<open>re.search(rf"\b{re.escape(action)}\b", raw_response, re.IGNORECASE)\<close>

  The pattern is a word boundary, the action as a literal, and a word boundary. \<open>\b\<close>
  holds at position \<open>i\<close> of \<open>s\<close> when exactly one of the characters before and at \<open>i\<close> is a
  word character (a missing character counts as a non-word character). The search
  succeeds when the pattern matches at some position of the text.
\<close>

definition at_boundary :: "string \<Rightarrow> nat \<Rightarrow> bool" where
  "at_boundary s i =
     ((0 < i \<and> is_word (s ! (i - 1))) \<noteq> (i < length s \<and> is_word (s ! i)))"

definition matches_at :: "string \<Rightarrow> string \<Rightarrow> nat \<Rightarrow> bool" where
  "matches_at action s i =
     (at_boundary s i
      \<and> i + length action \<le> length s
      \<and> map lower (take (length action) (drop i s)) = map lower action
      \<and> at_boundary s (i + length action))"

definition re_search :: "string \<Rightarrow> string \<Rightarrow> bool" where
  "re_search action s = list_ex (matches_at action s) [0..<Suc (length s)]"

text \<open>
  \<^verbatim>\<open>
  for action in valid_actions:
      if re.search(...):
          return action
  \<close>
  \<open>None\<close> is falling out of the loop.
\<close>

fun first_match :: "string list \<Rightarrow> string \<Rightarrow> string option" where
  "first_match [] raw_response = None"
| "first_match (action # valid_actions) raw_response =
     (if re_search action raw_response then Some action
      else first_match valid_actions raw_response)"

subsection \<open>\<open>random.choice\<close>\<close>

text \<open>
  \<open>random.choice(seq)\<close> raises \<open>IndexError\<close> on an empty sequence and returns
  \<open>seq[_randbelow(len(seq))]\<close> otherwise. The generator is an oracle: \<open>draw\<close> is the
  natural number it produces, reduced into the range of \<open>_randbelow\<close>.
\<close>

definition random_choice :: "nat \<Rightarrow> 'a list \<Rightarrow> error + 'a" where
  "random_choice draw seq =
     (if seq = [] then Inl IndexError else Inr (seq ! (draw mod length seq)))"

subsection \<open>The completion service's answer\<close>

text \<open>
  \<open>http_result\<close> is what lines 123 to 134 of \<open>llm.py\<close> leave: \<open>requests.post\<close>,
  \<open>raise_for_status\<close> or the JSON decoding raised (each a \<open>RequestException\<close>), or
  \<open>response.json()\<close> returned a value. Numbers carry no payload that the code reads;
  an object is the list of entries of the parsed dictionary.
\<close>

datatype json =
    JNull
  | JBool bool
  | JNum int
  | JStr string
  | JArr "json list"
  | JObj "(string \<times> json) list"

datatype http_result = HttpFailure | Json json

text \<open>\<open>value[key]\<close> with a string key.\<close>

fun subscript_key :: "string \<Rightarrow> json \<Rightarrow> error + json" where
  "subscript_key k (JObj entries) =
     (case map_of entries k of None \<Rightarrow> Inl KeyError | Some v \<Rightarrow> Inr v)"
| "subscript_key k _ = Inl TypeError"

text \<open>\<open>value[0]\<close>. The keys of a parsed JSON object are strings, so \<open>0\<close> is never one.\<close>

fun subscript_zero :: "json \<Rightarrow> error + json" where
  "subscript_zero (JArr []) = Inl IndexError"
| "subscript_zero (JArr (v # _)) = Inr v"
| "subscript_zero (JStr []) = Inl IndexError"
| "subscript_zero (JStr (c # _)) = Inr (JStr [c])"
| "subscript_zero (JObj _) = Inl KeyError"
| "subscript_zero _ = Inl TypeError"

text \<open>\<open>value.strip()\<close>: only a string has the method.\<close>

fun strip_method :: "json \<Rightarrow> error + string" where
  "strip_method (JStr s) = Inr (strip s)"
| "strip_method _ = Inl AttributeError"

text \<open>
  \<^verbatim>\<open>raw_response = response.json()["choices"][0]["message"]["content"].strip()\<close>
\<close>

definition request_content :: "http_result \<Rightarrow> error + string" where
  "request_content r =
     (case r of
        HttpFailure \<Rightarrow> Inl RequestException
      | Json body \<Rightarrow>
          and_then (subscript_key ''choices'' body) (\<lambda>choices.
          and_then (subscript_zero choices) (\<lambda>choice.
          and_then (subscript_key ''message'' choice) (\<lambda>message.
          and_then (subscript_key ''content'' message) strip_method))))"

text \<open>\<^verbatim>\<open>except (requests.exceptions.RequestException, KeyError, ValueError)\<close>\<close>

definition caught :: "error \<Rightarrow> bool" where
  "caught e = (e = RequestException \<or> e = KeyError \<or> e = ValueError)"

section \<open>The environment, the service and the agent\<close>

subsection \<open>Conversation turns\<close>

text \<open>
  A turn of \<open>chat_history\<close> is a role and a content. The content keeps the template of
  the source's f-string and its arguments; their rendering as text is not modelled.
  \<open>Query\<close> is the turn that \<open>choose_action\<close> adds to the request only.
\<close>

datatype role = System | User | Assistant

datatype 'r content =
    SystemPrompt
  | FirstObservation nat string
  | StepAction nat string
  | StepReward nat 'r
  | StepObservation nat string
  | Query string "string list"

type_synonym 'r message = "role \<times> 'r content"

definition system_message :: "'r message" where
  "system_message = (System, SystemPrompt)"

subsection \<open>The outside world\<close>

text \<open>
  The environment (a \<open>FrotzEnv\<close>) has a state of type \<open>'e\<close>; its methods are the fields of
  \<open>world\<close>. \<open>get_valid_actions\<close> and \<open>get_walkthrough\<close> only read the state. The
  completion service and the random generator are oracles asked once per step:
  \<open>http_post k messages\<close> is what the request made at step \<open>k\<close> with these messages
  comes back as, \<open>rand k\<close> the number drawn at step \<open>k\<close>.
\<close>

type_synonym 'v info = "string \<rightharpoonup> 'v"

record ('e, 'r, 'v) world =
  env_reset :: "'e \<Rightarrow> (string \<times> 'v info) \<times> 'e"
  env_step :: "'e \<Rightarrow> string \<Rightarrow> (string \<times> 'r \<times> bool \<times> 'v info) \<times> 'e"
  get_valid_actions :: "'e \<Rightarrow> string list"
  get_walkthrough :: "'e \<Rightarrow> string list"
  http_post :: "nat \<Rightarrow> 'r message list \<Rightarrow> http_result"
  rand :: "nat \<Rightarrow> nat"

subsection \<open>The agent object\<close>

text \<open>
  One record holds the attributes of every class; \<open>kind\<close> is the class of the object and
  decides which method a call reaches. \<open>info = None\<close> is the attribute not being set.
  \<open>env_closed\<close> records that \<open>env.close()\<close> was called. The last three fields exist
  on an \<open>LLMAgent\<close> only and are never read for another class.
\<close>

datatype agent_kind = Agent | WalkThroughAgent | RandomAgent | LLMAgent

record ('e, 'r, 'v) agent =
  kind :: agent_kind
  env :: 'e
  env_closed :: bool
  max_steps :: "int option"
  step :: nat
  observations :: "nat \<rightharpoonup> string"
  actions :: "nat \<rightharpoonup> string"
  rewards :: "nat \<rightharpoonup> 'r"
  info :: "'v info option"
  max_chat_history_size :: int
  fallback_to_random :: bool
  chat_history :: "'r message list"

text \<open>\<open>Agent.reset_env\<close>\<close>

definition reset_env ::
  "('e, 'r, 'v) world \<Rightarrow> ('e, 'r, 'v) agent \<Rightarrow> ('e, 'r, 'v) agent" where
  "reset_env w a =
     (let a1 = a\<lparr>step := 0, observations := Map.empty, actions := Map.empty,
                  rewards := Map.empty\<rparr>;
          ((observation, info'), e) = env_reset w (env a1);
          a2 = a1\<lparr>env := e\<rparr>
      in a2\<lparr>observations := (observations a2)(step a2 \<mapsto> observation)\<rparr>)"

text \<open>
  \<open>Agent.__init__\<close>, and \<open>LLMAgent.__init__\<close> after it for an \<open>LLMAgent\<close>. The arguments
  \<open>window\<close> and \<open>fallback\<close> are \<open>max_chat_history_size\<close> and \<open>fallback_to_random\<close>
  of \<open>LLMAgent\<close>.
\<close>

definition agent_init ::
  "('e, 'r, 'v) world \<Rightarrow> agent_kind \<Rightarrow> 'e \<Rightarrow> int option \<Rightarrow> ('e, 'r, 'v) agent" where
  "agent_init w k e ms =
     reset_env w
       \<lparr>kind = k, env = e, env_closed = False, max_steps = ms, step = 0,
        observations = Map.empty, actions = Map.empty, rewards = Map.empty,
        info = None, max_chat_history_size = 10, fallback_to_random = True,
        chat_history = []\<rparr>"

definition new_agent ::
  "('e, 'r, 'v) world \<Rightarrow> agent_kind \<Rightarrow> 'e \<Rightarrow> int option \<Rightarrow> int \<Rightarrow> bool
     \<Rightarrow> error + ('e, 'r, 'v) agent" where
  "new_agent w k e ms window fallback =
     (let a = agent_init w k e ms
      in if k = LLMAgent then
           (let a1 = a\<lparr>max_chat_history_size := window, fallback_to_random := fallback,
                        info := Some Map.empty, chat_history := [system_message]\<rparr>
            in case observations a1 (step a1) of
                 None \<Rightarrow> Inl KeyError
               | Some observation \<Rightarrow>
                   Inr (a1\<lparr>chat_history :=
                          chat_history a1 @ [(User, FirstObservation (step a1) observation)]\<rparr>))
         else Inr a)"

text \<open>\<open>Agent.close_env\<close>\<close>

definition close_env :: "('e, 'r, 'v) agent \<Rightarrow> ('e, 'r, 'v) agent" where
  "close_env a = a\<lparr>env_closed := True\<rparr>"

text \<open>\<open>update_action\<close>, \<open>update_reward\<close>, \<open>update_observation\<close>, as overridden by \<open>LLMAgent\<close>.\<close>

definition update_action :: "('e, 'r, 'v) agent \<Rightarrow> string \<Rightarrow> ('e, 'r, 'v) agent" where
  "update_action a action =
     (let a1 = a\<lparr>actions := (actions a)(step a \<mapsto> action)\<rparr>
      in if kind a = LLMAgent
         then a1\<lparr>chat_history := chat_history a1 @ [(Assistant, StepAction (step a1) action)]\<rparr>
         else a1)"

definition update_reward :: "('e, 'r, 'v) agent \<Rightarrow> 'r \<Rightarrow> ('e, 'r, 'v) agent" where
  "update_reward a reward =
     (let a1 = a\<lparr>rewards := (rewards a)(step a \<mapsto> reward)\<rparr>
      in if kind a = LLMAgent
         then a1\<lparr>chat_history := chat_history a1 @ [(User, StepReward (step a1) reward)]\<rparr>
         else a1)"

definition update_observation :: "('e, 'r, 'v) agent \<Rightarrow> string \<Rightarrow> ('e, 'r, 'v) agent" where
  "update_observation a observation =
     (let a1 = a\<lparr>observations := (observations a)(step a \<mapsto> observation)\<rparr>
      in if kind a = LLMAgent
         then a1\<lparr>chat_history :=
                   chat_history a1 @ [(User, StepObservation (step a1) observation)]\<rparr>
         else a1)"

section \<open>Choosing an action\<close>

text \<open>
  \<open>xs[k:]\<close> for a Python list: a negative \<open>k\<close> counts from the end, and the start is
  clipped into the list.
\<close>

definition slice_from :: "int \<Rightarrow> 'a list \<Rightarrow> 'a list" where
  "slice_from k xs =
     (let n = int (length xs);
          start = (if k < 0 then max 0 (n + k) else min k n)
      in drop (nat start) xs)"

text \<open>
  \<^verbatim>\<open>
  if len(self.chat_history) > self.max_chat_history_size * 3:
      self.chat_history = [self.system_message] + self.chat_history[1:][
          -self.max_chat_history_size * 3 :
      ]
  \<close>
\<close>

definition trim_history :: "('e, 'r, 'v) agent \<Rightarrow> ('e, 'r, 'v) agent" where
  "trim_history a =
     (if int (length (chat_history a)) > max_chat_history_size a * 3
      then a\<lparr>chat_history :=
               [system_message]
               @ slice_from (- max_chat_history_size a * 3) (drop 1 (chat_history a))\<rparr>
      else a)"

text \<open>
  The body of the \<open>try\<close> of \<open>LLMAgent.choose_action\<close>: the request, the search for an
  action, and what follows a response that names none.
\<close>

definition try_request ::
  "('e, 'r, 'v) world \<Rightarrow> ('e, 'r, 'v) agent \<Rightarrow> 'r message list \<Rightarrow> string list
     \<Rightarrow> error + string" where
  "try_request w a messages valid_actions =
     and_then (request_content (http_post w (step a) messages)) (\<lambda>raw_response.
       case first_match valid_actions raw_response of
         Some action \<Rightarrow> Inr action
       | None \<Rightarrow>
           if fallback_to_random a then random_choice (rand w (step a)) valid_actions
           else Inl ValueError)"

text \<open>
  \<open>LLMAgent.choose_action\<close>. The agent is returned with the result, also when the call
  raises, since the trimming above is an assignment to \<open>self.chat_history\<close>.
\<close>

definition llm_choose_action ::
  "('e, 'r, 'v) world \<Rightarrow> ('e, 'r, 'v) agent \<Rightarrow> string list
     \<Rightarrow> (error \<times> ('e, 'r, 'v) agent) + (string \<times> ('e, 'r, 'v) agent)" where
  "llm_choose_action w a valid_actions =
     (let a1 = trim_history a
      in case observations a1 (step a1) of
           None \<Rightarrow> Inl (KeyError, a1)
         | Some observation \<Rightarrow>
             (let messages = chat_history a1 @ [(User, Query observation valid_actions)]
              in case try_request w a1 messages valid_actions of
                   Inr action \<Rightarrow> Inr (action, a1)
                 | Inl e \<Rightarrow>
                     if caught e then
                       (if fallback_to_random a1 then
                          (case random_choice (rand w (step a1)) valid_actions of
                             Inl e' \<Rightarrow> Inl (e', a1)
                           | Inr action \<Rightarrow> Inr (action, a1))
                        else Inl (e, a1))
                     else Inl (e, a1)))"

text \<open>
  \<open>self.choose_action(valid_actions)\<close>: \<open>Agent\<close> raises, and \<open>WalkThroughAgent\<close> inherits
  that; \<open>RandomAgent\<close> draws; \<open>LLMAgent\<close> asks the service.
\<close>

definition choose_action ::
  "('e, 'r, 'v) world \<Rightarrow> ('e, 'r, 'v) agent \<Rightarrow> string list
     \<Rightarrow> (error \<times> ('e, 'r, 'v) agent) + (string \<times> ('e, 'r, 'v) agent)" where
  "choose_action w a valid_actions =
     (case kind a of
        Agent \<Rightarrow> Inl (NotImplementedError, a)
      | WalkThroughAgent \<Rightarrow> Inl (NotImplementedError, a)
      | RandomAgent \<Rightarrow>
          (case random_choice (rand w (step a)) valid_actions of
             Inl e \<Rightarrow> Inl (e, a)
           | Inr action \<Rightarrow> Inr (action, a))
      | LLMAgent \<Rightarrow> llm_choose_action w a valid_actions)"

section \<open>The episode driver\<close>

text \<open>
  \<^verbatim>\<open>while not done and (not self.max_steps or self.step < self.max_steps):\<close>

  \<open>not self.max_steps\<close> is true for \<open>None\<close> and for \<open>0\<close>.
\<close>

definition loop_cond :: "bool \<Rightarrow> ('e, 'r, 'v) agent \<Rightarrow> bool" where
  "loop_cond done a =
     (\<not> done \<and> (case max_steps a of
                   None \<Rightarrow> True
                 | Some m \<Rightarrow> m = 0 \<or> int (step a) < m))"

text \<open>
  What the part of an iteration after the action is known does, in \<open>Agent.run\<close> and in
  \<open>WalkThroughAgent.run\<close> alike: the new values of \<open>done\<close> and \<open>info\<close>, and the agent.
  \<^verbatim>\<open>
  self.update_action(action)
  observation, reward, done, info = self.env.step(action)
  self.step += 1
  self.update_reward(reward)
  self.update_observation(observation)
  \<close>
\<close>

definition take_step ::
  "('e, 'r, 'v) world \<Rightarrow> ('e, 'r, 'v) agent \<Rightarrow> string
     \<Rightarrow> bool \<times> 'v info \<times> ('e, 'r, 'v) agent" where
  "take_step w a action =
     (let a1 = update_action a action;
          ((observation, reward, done, info'), e) = env_step w (env a1) action;
          a2 = a1\<lparr>env := e\<rparr>;
          a3 = a2\<lparr>step := step a2 + 1\<rparr>;
          a4 = update_reward a3 reward;
          a5 = update_observation a4 observation
      in (done, info', a5))"

text \<open>
  One iteration of the loop of \<open>Agent.run\<close>: it leaves the loop by \<open>break\<close>, it raises
  (in \<open>choose_action\<close>), or it ends with new values of \<open>done\<close> and \<open>info\<close>.
\<close>

datatype ('i, 'a) iteration =
    Break
  | Raised error 'a
  | is_Next: Next (next_done: bool) (next_info: 'i) (next_agent: 'a)

definition loop_iter ::
  "('e, 'r, 'v) world \<Rightarrow> ('e, 'r, 'v) agent \<Rightarrow> ('v info, ('e, 'r, 'v) agent) iteration" where
  "loop_iter w a =
     (let valid_actions = get_valid_actions w (env a)
      in if length valid_actions = 0 then Break
         else case choose_action w a valid_actions of
                Inl (e, a1) \<Rightarrow> Raised e a1
              | Inr (action, a1) \<Rightarrow>
                  (case take_step w a1 action of (done, info', a2) \<Rightarrow> Next done info' a2))"

text \<open>
  The loop. It need not end (no step maximum and an environment that is never done), so
  it runs on fuel: \<open>n\<close> is the number of iterations that may be followed by another
  evaluation of the loop condition, and \<open>None\<close> is not having returned within them. The
  local variable \<open>info\<close> is \<open>None\<close> while it is unbound.
\<close>

fun run_loop ::
  "('e, 'r, 'v) world \<Rightarrow> nat \<Rightarrow> bool \<Rightarrow> 'v info option \<Rightarrow> ('e, 'r, 'v) agent
     \<Rightarrow> ((error \<times> ('e, 'r, 'v) agent) + ('v info option \<times> ('e, 'r, 'v) agent)) option" where
  "run_loop w n done info' a =
     (if loop_cond done a then
        (case loop_iter w a of
           Break \<Rightarrow> Some (Inr (info', a))
         | Raised e a1 \<Rightarrow> Some (Inl (e, a1))
         | Next done1 info1 a1 \<Rightarrow>
             (case n of 0 \<Rightarrow> None | Suc m \<Rightarrow> run_loop w m done1 (Some info1) a1))
      else Some (Inr (info', a)))"

text \<open>
  \<^verbatim>\<open>
  self.info = info
  self.close_env()
  \<close>
  Reading the unbound local variable raises.
\<close>

definition finish ::
  "'v info option \<Rightarrow> ('e, 'r, 'v) agent \<Rightarrow> (error \<times> ('e, 'r, 'v) agent) + ('e, 'r, 'v) agent" where
  "finish info' a =
     (case info' of
        None \<Rightarrow> Inl (UnboundLocalError, a)
      | Some i \<Rightarrow> Inr (close_env (a\<lparr>info := Some i\<rparr>)))"

text \<open>\<open>Agent.run\<close>\<close>

definition agent_run ::
  "('e, 'r, 'v) world \<Rightarrow> nat \<Rightarrow> ('e, 'r, 'v) agent
     \<Rightarrow> ((error \<times> ('e, 'r, 'v) agent) + ('e, 'r, 'v) agent) option" where
  "agent_run w n a =
     (case run_loop w n False None a of
        None \<Rightarrow> None
      | Some (Inl err) \<Rightarrow> Some (Inl err)
      | Some (Inr (info', a1)) \<Rightarrow> Some (finish info' a1))"

text \<open>
  \<open>WalkThroughAgent.run\<close>: the \<open>for\<close> loop over the list that \<open>get_walkthrough\<close> returned,
  then the same two statements.
\<close>

fun walk_loop ::
  "('e, 'r, 'v) world \<Rightarrow> string list \<Rightarrow> 'v info option \<Rightarrow> ('e, 'r, 'v) agent
     \<Rightarrow> 'v info option \<times> ('e, 'r, 'v) agent" where
  "walk_loop w [] info' a = (info', a)"
| "walk_loop w (action # rest) info' a =
     (case take_step w a action of (done, info1, a1) \<Rightarrow> walk_loop w rest (Some info1) a1)"

definition walkthrough_run ::
  "('e, 'r, 'v) world \<Rightarrow> ('e, 'r, 'v) agent
     \<Rightarrow> (error \<times> ('e, 'r, 'v) agent) + ('e, 'r, 'v) agent" where
  "walkthrough_run w a =
     (case walk_loop w (get_walkthrough w (env a)) None a of (info', a1) \<Rightarrow> finish info' a1)"

text \<open>\<open>agent.run()\<close>, for an object of any of the classes.\<close>

definition run ::
  "('e, 'r, 'v) world \<Rightarrow> nat \<Rightarrow> ('e, 'r, 'v) agent
     \<Rightarrow> ((error \<times> ('e, 'r, 'v) agent) + ('e, 'r, 'v) agent) option" where
  "run w n a =
     (if kind a = WalkThroughAgent then Some (walkthrough_run w a) else agent_run w n a)"

text \<open>The exception of an outcome, if it is one, and the agent the outcome leaves.\<close>

fun raised :: "(error \<times> 'a) + 'a \<Rightarrow> error option" where
  "raised (Inl (e, a)) = Some e"
| "raised (Inr a) = None"

fun agent_of :: "(error \<times> 'a) + 'a \<Rightarrow> 'a" where
  "agent_of (Inl (e, a)) = a"
| "agent_of (Inr a) = a"

fun chosen_agent :: "(error \<times> 'a) + (string \<times> 'a) \<Rightarrow> 'a" where
  "chosen_agent (Inl (e, a)) = a"
| "chosen_agent (Inr (action, a)) = a"

text \<open>What a call of \<open>choose_action\<close> raises or returns.\<close>

fun chosen :: "(error \<times> 'a) + (string \<times> 'a) \<Rightarrow> error + string" where
  "chosen (Inl (e, a)) = Inl e"
| "chosen (Inr (action, a)) = Inr action"

subsection \<open>The states of the loop\<close>

text \<open>
  \<open>loop_reach w a0 (done, info', a)\<close>: the loop of \<open>Agent.run\<close>, started on the agent \<open>a0\<close>,
  evaluates its condition with these values of \<open>done\<close>, \<open>info\<close> and \<open>self\<close>.
\<close>

inductive loop_reach ::
  "('e, 'r, 'v) world \<Rightarrow> ('e, 'r, 'v) agent
     \<Rightarrow> bool \<times> 'v info option \<times> ('e, 'r, 'v) agent \<Rightarrow> bool"
  for w :: "('e, 'r, 'v) world" and a0 :: "('e, 'r, 'v) agent" where
  start: "loop_reach w a0 (False, None, a0)"
| iter: "loop_reach w a0 (done, info', a) \<Longrightarrow> loop_cond done a
          \<Longrightarrow> loop_iter w a = Next done1 info1 a1
          \<Longrightarrow> loop_reach w a0 (done1, Some info1, a1)"

subsection \<open>What happens to the conversation in an episode\<close>

text \<open>
  The operations that an episode applies to an \<open>LLMAgent\<close> between two requests, in any
  order and number: the three updates, the increment of the step counter, and the
  trimming that \<open>choose_action\<close> starts with.
\<close>

datatype 'r operation =
    UpdateAction string
  | UpdateReward 'r
  | UpdateObservation string
  | IncrementStep
  | Trim

fun apply_operation :: "('e, 'r, 'v) agent \<Rightarrow> 'r operation \<Rightarrow> ('e, 'r, 'v) agent" where
  "apply_operation a (UpdateAction action) = update_action a action"
| "apply_operation a (UpdateReward reward) = update_reward a reward"
| "apply_operation a (UpdateObservation observation) = update_observation a observation"
| "apply_operation a IncrementStep = a\<lparr>step := step a + 1\<rparr>"
| "apply_operation a Trim = trim_history a"

section \<open>The match in the words of the specification\<close>

text \<open>
  The specification says that the selection searches for the first action "whose text
  appears in the response as a whole-word, case-insensitive match". The definitions of
  this section state that sentence without the regular expression, to compare the code
  with it.

  Two characters are the same up to case when they are equal or one is a capital letter
  (A to Z, and in Latin-1 the letters U+00C0 to U+00D6 and U+00D8 to U+00DE) and the
  other its small letter, 32 code points above.
\<close>

definition capital_of :: "char \<Rightarrow> char \<Rightarrow> bool" where
  "capital_of C c =
     (let n = (of_char C :: nat)
      in ((65 \<le> n \<and> n \<le> 90) \<or> (192 \<le> n \<and> n \<le> 214) \<or> (216 \<le> n \<and> n \<le> 222))
         \<and> (of_char c :: nat) = n + 32)"

definition same_letter :: "char \<Rightarrow> char \<Rightarrow> bool" where
  "same_letter c d = (c = d \<or> capital_of c d \<or> capital_of d c)"

text \<open>
  The action stands as a whole word at position \<open>i\<close> of the response when the response
  has there, up to case, the text of the action, and the character before it and the
  character after it, where there is one, are not word characters.
\<close>

definition whole_word_at :: "string \<Rightarrow> string \<Rightarrow> nat \<Rightarrow> bool" where
  "whole_word_at action response i =
     (let left = take i response;
          found = take (length action) (drop i response);
          right = drop (i + length action) response
      in length found = length action
         \<and> list_all2 same_letter found action
         \<and> (left = [] \<or> \<not> is_word (last left))
         \<and> (right = [] \<or> \<not> is_word (hd right)))"

definition whole_word_occurrence :: "string \<Rightarrow> string \<Rightarrow> bool" where
  "whole_word_occurrence action response =
     list_ex (whole_word_at action response) [0..<Suc (length response)]"

text \<open>An action that begins and ends with a word character.\<close>

definition word_edged :: "string \<Rightarrow> bool" where
  "word_edged action = (action \<noteq> [] \<and> is_word (hd action) \<and> is_word (last action))"

section \<open>Auxiliary notions of the verification\<close>

text \<open>
  The keys of the three logs, as the loop keeps them: the step counter is incremented
  between \<open>update_action\<close> and \<open>update_reward\<close>, so the actions are filed under
  \<open>0 .. step - 1\<close> and the rewards under \<open>1 .. step\<close>.
\<close>

definition log_inv :: "('e, 'r, 'v) agent \<Rightarrow> bool" where
  "log_inv a \<longleftrightarrow>
     dom (actions a) = {..<step a} \<and> dom (rewards a) = {1..step a}
     \<and> dom (observations a) = {..step a}"

text \<open>What no statement of the loop changes.\<close>

definition same_setup :: "('e, 'r, 'v) agent \<Rightarrow> ('e, 'r, 'v) agent \<Rightarrow> bool" where
  "same_setup a a' \<longleftrightarrow>
     kind a' = kind a \<and> env_closed a' = env_closed a \<and> max_steps a' = max_steps a
     \<and> info a' = info a \<and> max_chat_history_size a' = max_chat_history_size a
     \<and> fallback_to_random a' = fallback_to_random a"

text \<open>An outcome of \<open>run\<close> that is a normal return.\<close>

fun returned :: "((error \<times> 'a) + 'a) option \<Rightarrow> bool" where
  "returned (Some (Inr a)) = True"
| "returned _ = False"

section \<open>A small game\<close>

text \<open>
  An environment whose state counts the steps taken and which is done after the second
  one, with a service that always gives the same answer.
\<close>

definition answer :: "string \<Rightarrow> http_result" where
  "answer text =
     Json (JObj [(''choices'', JArr [JObj [(''message'', JObj [(''content'', JStr text)])]])])"

definition demo_world :: "(nat, int, int) world" where
  "demo_world =
     \<lparr>env_reset = (\<lambda>e. ((''West of House'', Map.empty), 0)),
      env_step = (\<lambda>e action. ((''Forest'', 1, 2 \<le> e + 1, [''moves'' \<mapsto> int (e + 1)]), e + 1)),
      get_valid_actions = (\<lambda>e. [''go north'', ''north'']),
      get_walkthrough = (\<lambda>e. [''north'', ''east'', ''open door'']),
      http_post = (\<lambda>k messages. answer '' I will go north now ''),
      rand = (\<lambda>k. 1)\<rparr>"

text \<open>The same game with no legal action at all, and with a service that cannot be reached.\<close>

definition silent_world :: "(nat, int, int) world" where
  "silent_world = demo_world\<lparr>get_valid_actions := (\<lambda>e. [])\<rparr>"



text \<open>
  A \<open>RandomAgent\<close> for the small game, the agent that the first iteration of its loop
  leaves, and a \<open>RandomAgent\<close> constructed with \<open>max_steps=0\<close>.
\<close>

definition demo_agent :: "(nat, int, int) agent" where
  "demo_agent = projr (new_agent demo_world RandomAgent 0 None 10 True)"

definition after_one_step :: "(nat, int, int) agent" where
  "after_one_step = next_agent (loop_iter demo_world demo_agent)"

definition zero_max_agent :: "(nat, int, int) agent" where
  "zero_max_agent = projr (new_agent demo_world RandomAgent 0 (Some 0) 10 True)"

text \<open>The same game with a single legal action at the start and none after the first step.\<close>

definition trap_world :: "(nat, int, int) world" where
  "trap_world = demo_world\<lparr>get_valid_actions := (\<lambda>e. if e = 0 then [''wait''] else [])\<rparr>"

definition trapped_agent :: "(nat, int, int) agent" where
  "trapped_agent = projr (new_agent trap_world RandomAgent 0 None 10 True)"

text \<open>
  An \<open>LLMAgent\<close> for the small game, and one, with fallback enabled, for a service whose
  answer is the JSON object \<open>{"choices": []}\<close>.
\<close>

definition llm_demo_agent :: "(nat, int, int) agent" where
  "llm_demo_agent = projr (new_agent demo_world LLMAgent 0 None 10 True)"

definition broken_world :: "(nat, int, int) world" where
  "broken_world = demo_world\<lparr>http_post := (\<lambda>k messages. Json (JObj [(''choices'', JArr [])]))\<rparr>"

definition fallback_agent :: "(nat, int, int) agent" where
  "fallback_agent = projr (new_agent broken_world LLMAgent 0 None 10 True)"

text \<open>
  An \<open>LLMAgent\<close> with \<open>max_chat_history_size=1\<close> after the first iteration of its loop, and
  a new \<open>LLMAgent\<close> with \<open>max_chat_history_size=0\<close>.
\<close>

definition chatty_agent :: "(nat, int, int) agent" where
  "chatty_agent =
     next_agent (loop_iter demo_world (projr (new_agent demo_world LLMAgent 0 None 1 True)))"

definition windowless_agent :: "(nat, int, int) agent" where
  "windowless_agent = projr (new_agent demo_world LLMAgent 0 None 0 True)"

text \<open>
  The small game with a service whose answer is \<open>look! (do not wait)\<close>, and an \<open>LLMAgent\<close>
  for it.
\<close>

definition shout_world :: "(nat, int, int) world" where
  "shout_world = demo_world\<lparr>http_post := (\<lambda>k messages. answer ''look! (do not wait)'')\<rparr>"

definition shout_agent :: "(nat, int, int) agent" where
  "shout_agent = projr (new_agent shout_world LLMAgent 0 None 10 True)"

section \<open>Properties\<close>

subsection \<open>The fields after each operation\<close>

declare run_loop.simps [simp del]

lemma update_action_fields [simp]:
  "kind (update_action a x) = kind a" "env (update_action a x) = env a"
  "env_closed (update_action a x) = env_closed a" "max_steps (update_action a x) = max_steps a"
  "step (update_action a x) = step a" "observations (update_action a x) = observations a"
  "actions (update_action a x) = (actions a)(step a \<mapsto> x)"
  "rewards (update_action a x) = rewards a" "info (update_action a x) = info a"
  "max_chat_history_size (update_action a x) = max_chat_history_size a"
  "fallback_to_random (update_action a x) = fallback_to_random a"
  "chat_history (update_action a x) =
     (if kind a = LLMAgent then chat_history a @ [(Assistant, StepAction (step a) x)]
      else chat_history a)"
  by (simp_all add: update_action_def Let_def)

lemma update_reward_fields [simp]:
  "kind (update_reward a x) = kind a" "env (update_reward a x) = env a"
  "env_closed (update_reward a x) = env_closed a" "max_steps (update_reward a x) = max_steps a"
  "step (update_reward a x) = step a" "observations (update_reward a x) = observations a"
  "actions (update_reward a x) = actions a"
  "rewards (update_reward a x) = (rewards a)(step a \<mapsto> x)" "info (update_reward a x) = info a"
  "max_chat_history_size (update_reward a x) = max_chat_history_size a"
  "fallback_to_random (update_reward a x) = fallback_to_random a"
  "chat_history (update_reward a x) =
     (if kind a = LLMAgent then chat_history a @ [(User, StepReward (step a) x)]
      else chat_history a)"
  by (simp_all add: update_reward_def Let_def)

lemma update_observation_fields [simp]:
  "kind (update_observation a x) = kind a" "env (update_observation a x) = env a"
  "env_closed (update_observation a x) = env_closed a"
  "max_steps (update_observation a x) = max_steps a"
  "step (update_observation a x) = step a"
  "observations (update_observation a x) = (observations a)(step a \<mapsto> x)"
  "actions (update_observation a x) = actions a"
  "rewards (update_observation a x) = rewards a" "info (update_observation a x) = info a"
  "max_chat_history_size (update_observation a x) = max_chat_history_size a"
  "fallback_to_random (update_observation a x) = fallback_to_random a"
  "chat_history (update_observation a x) =
     (if kind a = LLMAgent then chat_history a @ [(User, StepObservation (step a) x)]
      else chat_history a)"
  by (simp_all add: update_observation_def Let_def)

lemma trim_history_fields [simp]:
  "kind (trim_history a) = kind a" "env (trim_history a) = env a"
  "env_closed (trim_history a) = env_closed a" "max_steps (trim_history a) = max_steps a"
  "step (trim_history a) = step a" "observations (trim_history a) = observations a"
  "actions (trim_history a) = actions a" "rewards (trim_history a) = rewards a"
  "info (trim_history a) = info a"
  "max_chat_history_size (trim_history a) = max_chat_history_size a"
  "fallback_to_random (trim_history a) = fallback_to_random a"
  by (simp_all add: trim_history_def)

lemma llm_choose_action_agent:
  "chosen_agent (llm_choose_action w a va) = trim_history a"
  by (simp add: llm_choose_action_def Let_def split: option.splits sum.splits)

lemma choose_action_agent:
  "chosen_agent (choose_action w a va) = (if kind a = LLMAgent then trim_history a else a)"
  by (simp add: choose_action_def llm_choose_action_agent split: agent_kind.splits sum.splits)

lemma take_step_fields:
  assumes "take_step w a x = (d, i, a')"
  shows "kind a' = kind a" "env_closed a' = env_closed a" "max_steps a' = max_steps a"
    "step a' = Suc (step a)" "actions a' = (actions a)(step a \<mapsto> x)"
    "\<exists>r. rewards a' = (rewards a)(Suc (step a) \<mapsto> r)"
    "\<exists>ob. observations a' = (observations a)(Suc (step a) \<mapsto> ob)"
    "info a' = info a" "max_chat_history_size a' = max_chat_history_size a"
    "fallback_to_random a' = fallback_to_random a"
    "i = snd (snd (snd (fst (env_step w (env a) x))))"
    "d = fst (snd (snd (fst (env_step w (env a) x))))"
    "env a' = snd (env_step w (env a) x)"
  using assms by (auto simp: take_step_def Let_def split: prod.splits)

lemma log_inv_take_step:
  assumes "log_inv a" "take_step w a x = (d, i, a')"
  shows "log_inv a'"
proof -
  obtain r ob where
    "rewards a' = (rewards a)(Suc (step a) \<mapsto> r)"
    "observations a' = (observations a)(Suc (step a) \<mapsto> ob)"
    using take_step_fields(6,7)[OF assms(2)] by blast
  then show ?thesis
    using assms(1) take_step_fields(4,5)[OF assms(2)]
    by (auto simp: log_inv_def)
qed

lemma log_inv_trim_history [simp]: "log_inv (trim_history a) = log_inv a"
  by (simp add: log_inv_def)

lemma choose_action_Inr:
  assumes "choose_action w a va = Inr (x, a1)"
  shows "a1 = (if kind a = LLMAgent then trim_history a else a)"
  using choose_action_agent[of w a va] assms by simp

lemma choose_action_Inl:
  assumes "choose_action w a va = Inl (e, a1)"
  shows "a1 = (if kind a = LLMAgent then trim_history a else a)"
  using choose_action_agent[of w a va] assms by simp

subsection \<open>The outcomes of an iteration and of the loop\<close>

lemma loop_iter_Next:
  assumes "loop_iter w a = Next d i a'"
  obtains x a1 where "get_valid_actions w (env a) \<noteq> []"
    "choose_action w a (get_valid_actions w (env a)) = Inr (x, a1)"
    "take_step w a1 x = (d, i, a')"
  using assms
  by (auto simp: loop_iter_def Let_def split: if_splits sum.splits prod.splits)

lemma loop_iter_Raised:
  assumes "loop_iter w a = Raised e a1"
  shows "get_valid_actions w (env a) \<noteq> []"
    "choose_action w a (get_valid_actions w (env a)) = Inl (e, a1)"
  using assms
  by (auto simp: loop_iter_def Let_def split: if_splits sum.splits prod.splits)

lemma loop_iter_Break:
  "loop_iter w a = Break \<longleftrightarrow> get_valid_actions w (env a) = []"
  by (auto simp: loop_iter_def Let_def split: if_splits sum.splits prod.splits)

lemma log_inv_loop_iter:
  assumes "log_inv a" "loop_iter w a = Next d i a'"
  shows "log_inv a'"
proof -
  obtain x a1 where c: "choose_action w a (get_valid_actions w (env a)) = Inr (x, a1)"
    and t: "take_step w a1 x = (d, i, a')"
    using assms(2) by (rule loop_iter_Next)
  have "log_inv a1"
    using choose_action_Inr[OF c] assms(1) by (simp split: if_splits)
  then show ?thesis using t by (rule log_inv_take_step)
qed

lemma run_loop_0:
  "run_loop w 0 d i a =
     (if loop_cond d a then
        (case loop_iter w a of
           Break \<Rightarrow> Some (Inr (i, a))
         | Raised e a1 \<Rightarrow> Some (Inl (e, a1))
         | Next d1 i1 a1 \<Rightarrow> None)
      else Some (Inr (i, a)))"
  by (simp add: run_loop.simps[of w 0] split: iteration.splits)

lemma run_loop_Suc:
  "run_loop w (Suc n) d i a =
     (if loop_cond d a then
        (case loop_iter w a of
           Break \<Rightarrow> Some (Inr (i, a))
         | Raised e a1 \<Rightarrow> Some (Inl (e, a1))
         | Next d1 i1 a1 \<Rightarrow> run_loop w n d1 (Some i1) a1)
      else Some (Inr (i, a)))"
  by (simp add: run_loop.simps[of w "Suc n"] split: iteration.splits)

lemma run_loop_log_inv:
  "run_loop w n d i a = Some r \<Longrightarrow> log_inv a \<Longrightarrow> log_inv (case r of Inl (e, a') \<Rightarrow> a' | Inr (i', a') \<Rightarrow> a')"
proof (induction n arbitrary: d i a)
  case 0
  then show ?case
    by (auto simp: run_loop_0 split: if_splits iteration.splits
        dest!: loop_iter_Raised(2) choose_action_Inl)
next
  case (Suc n)
  show ?case
  proof (cases "loop_cond d a")
    case False
    with Suc.prems show ?thesis by (auto simp: run_loop_Suc)
  next
    case True
    show ?thesis
    proof (cases "loop_iter w a")
      case Break
      with True Suc.prems show ?thesis by (auto simp: run_loop_Suc)
    next
      case (Raised e a1)
      with True Suc.prems loop_iter_Raised(2)[OF Raised] show ?thesis
        by (auto simp: run_loop_Suc dest!: choose_action_Inl)
    next
      case (Next d1 i1 a1)
      have "log_inv a1" using Suc.prems(2) Next by (rule log_inv_loop_iter)
      moreover have "run_loop w n d1 (Some i1) a1 = Some r"
        using True Next Suc.prems(1) by (simp add: run_loop_Suc)
      ultimately show ?thesis using Suc.IH by blast
    qed
  qed
qed

lemma walk_loop_log_inv:
  "walk_loop w xs i a = (i', a') \<Longrightarrow> log_inv a \<Longrightarrow> log_inv a'"
proof (induction xs arbitrary: i a)
  case Nil
  then show ?case by simp
next
  case (Cons x xs)
  obtain d i1 a1 where t: "take_step w a x = (d, i1, a1)"
    by (cases "take_step w a x") auto
  have "log_inv a1" using Cons.prems(2) t by (rule log_inv_take_step)
  moreover have "walk_loop w xs (Some i1) a1 = (i', a')"
    using Cons.prems(1) t by simp
  ultimately show ?case using Cons.IH by blast
qed

lemma finish_cases:
  "finish i a = Inr a' \<longleftrightarrow> (\<exists>j. i = Some j \<and> a' = a\<lparr>info := Some j, env_closed := True\<rparr>)"
  "finish i a = Inl (e, a') \<longleftrightarrow> (i = None \<and> e = UnboundLocalError \<and> a' = a)"
  by (auto simp: finish_def close_env_def split: option.splits)

lemma log_inv_finish: "log_inv (agent_of (finish i a)) = log_inv a"
  by (cases i) (simp_all add: finish_def close_env_def log_inv_def)

lemma step_finish: "step (agent_of (finish i a)) = step a"
  by (cases i) (simp_all add: finish_def close_env_def)

lemma run_log_inv:
  assumes "run w n a = Some r" "log_inv a"
  shows "log_inv (agent_of r)"
proof (cases "kind a = WalkThroughAgent")
  case True
  obtain i' a' where wl: "walk_loop w (get_walkthrough w (env a)) None a = (i', a')"
    by (cases "walk_loop w (get_walkthrough w (env a)) None a") auto
  have "log_inv a'" using wl assms(2) by (rule walk_loop_log_inv)
  moreover have "r = finish i' a'"
    using assms(1) True wl by (simp add: run_def walkthrough_run_def)
  ultimately show ?thesis by (simp add: log_inv_finish)
next
  case False
  then have ar: "agent_run w n a = Some r" using assms(1) by (simp add: run_def)
  then obtain r0 where rl: "run_loop w n False None a = Some r0"
    by (auto simp: agent_run_def split: option.splits)
  have li: "log_inv (case r0 of Inl (e, a') \<Rightarrow> a' | Inr (i', a') \<Rightarrow> a')"
    using rl assms(2) by (rule run_loop_log_inv)
  show ?thesis
  proof (cases r0)
    case (Inl p)
    then show ?thesis using ar rl li by (cases p) (auto simp: agent_run_def)
  next
    case (Inr p)
    then show ?thesis using ar rl li by (cases p) (auto simp: agent_run_def log_inv_finish)
  qed
qed

subsection \<open>A newly constructed agent, and the counts of a completed episode\<close>

lemma agent_init_fields:
  "kind (agent_init w k e ms) = k" "env_closed (agent_init w k e ms) = False"
  "max_steps (agent_init w k e ms) = ms" "step (agent_init w k e ms) = 0"
  "actions (agent_init w k e ms) = Map.empty" "rewards (agent_init w k e ms) = Map.empty"
  "observations (agent_init w k e ms) = [0 \<mapsto> fst (fst (env_reset w e))]"
  "env (agent_init w k e ms) = snd (env_reset w e)"
  "info (agent_init w k e ms) = None"
  by (simp_all add: agent_init_def reset_env_def Let_def split: prod.splits)

lemma new_agent_Inr:
  "new_agent w k e ms c f =
     Inr (if k = LLMAgent
          then (agent_init w k e ms)\<lparr>max_chat_history_size := c, fallback_to_random := f,
                 info := Some Map.empty,
                 chat_history := [system_message, (User, FirstObservation 0 (fst (fst (env_reset w e))))]\<rparr>
          else agent_init w k e ms)"
  by (simp add: new_agent_def Let_def agent_init_fields)

lemma new_agent_fields:
  assumes "new_agent w k e ms c f = Inr a"
  shows "kind a = k" "env_closed a = False" "max_steps a = ms" "step a = 0"
    "actions a = Map.empty" "rewards a = Map.empty"
    "observations a = [0 \<mapsto> fst (fst (env_reset w e))]"
    "env a = snd (env_reset w e)"
    "k = LLMAgent \<Longrightarrow> max_chat_history_size a = c"
    "k = LLMAgent \<Longrightarrow> fallback_to_random a = f"
    "k = LLMAgent \<Longrightarrow> chat_history a = [system_message, (User, FirstObservation 0 (fst (fst (env_reset w e))))]"
  using assms unfolding new_agent_Inr by (auto simp: agent_init_fields split: if_splits)

lemma new_agent_log_inv:
  assumes "new_agent w k e ms c f = Inr a"
  shows "log_inv a"
  using new_agent_fields(4-7)[OF assms] by (simp add: log_inv_def)

text \<open>
  C1. For every episode that \<open>run\<close> completes by returning, on an agent of any class as
  its constructor leaves it: the number of recorded rewards and the number of recorded
  actions equal the final step counter, and the number of recorded observations is the
  final step counter plus one.
\<close>

theorem completed_episode_counts:
  assumes "new_agent w k e ms c f = Inr a" and "run w n a = Some (Inr a')"
  shows "card (dom (rewards a')) = step a' \<and> card (dom (actions a')) = step a'
         \<and> card (dom (observations a')) = step a' + 1"
proof -
  have "log_inv a" using assms(1) by (rule new_agent_log_inv)
  with assms(2) have "log_inv (agent_of (Inr a' :: (error \<times> ('a, 'b, 'c) agent) + ('a, 'b, 'c) agent))"
    by (rule run_log_inv)
  then show ?thesis by (simp add: log_inv_def)
qed

lemma returnedE: "returned r \<Longrightarrow> r = Some (Inr (agent_of (the r)))"
  by (cases r rule: returned.cases) auto

lemmas eval_defs = run_def agent_run_def run_loop_Suc run_loop_0 loop_cond_def loop_iter_def
  choose_action_def random_choice_def take_step_def finish_def close_env_def new_agent_Inr
  agent_init_def reset_env_def demo_world_def Let_def

theorem completed_episode_counts_witness:
  "let a = projr (new_agent demo_world RandomAgent 0 None 10 True);
       a' = agent_of (the (run demo_world 2 a))
   in new_agent demo_world RandomAgent 0 None 10 True = Inr a
      \<and> run demo_world 2 a = Some (Inr a') \<and> step a' = 2
      \<and> card (dom (rewards a')) = 2 \<and> card (dom (actions a')) = 2
      \<and> card (dom (observations a')) = 3"
proof -
  define a where "a = projr (new_agent demo_world RandomAgent 0 None 10 True)"
  define a' where "a' = agent_of (the (run demo_world 2 a))"
  have h1: "new_agent demo_world RandomAgent 0 None 10 True = Inr a"
    by (simp add: a_def new_agent_Inr)
  have "returned (run demo_world 2 a)"
    by (simp add: a_def eval_defs numeral_2_eq_2)
  then have h2: "run demo_world 2 a = Some (Inr a')"
    unfolding a'_def by (rule returnedE)
  have s: "step a' = 2"
    by (simp add: a'_def a_def eval_defs numeral_2_eq_2)
  show ?thesis
    using completed_episode_counts[OF h1 h2] h1 h2 s
    by (simp add: Let_def a_def[symmetric] a'_def[symmetric])
qed

subsection \<open>Closing the environment\<close>

lemma same_setup_refl [simp]: "same_setup a a"
  by (simp add: same_setup_def)

lemma same_setup_trans: "same_setup a b \<Longrightarrow> same_setup b c \<Longrightarrow> same_setup a c"
  by (simp add: same_setup_def)

lemma same_setup_trim [simp]: "same_setup a (trim_history a)"
  by (simp add: same_setup_def)

lemma same_setup_take_step: "take_step w a x = (d, i, a') \<Longrightarrow> same_setup a a'"
  by (simp add: same_setup_def take_step_fields)

lemma same_setup_loop_iter:
  assumes "loop_iter w a = Next d i a'"
  shows "same_setup a a'" "step a' = Suc (step a)"
proof -
  obtain x a1 where c: "choose_action w a (get_valid_actions w (env a)) = Inr (x, a1)"
    and t: "take_step w a1 x = (d, i, a')"
    using assms by (rule loop_iter_Next)
  have a1: "a1 = (if kind a = LLMAgent then trim_history a else a)"
    using c by (rule choose_action_Inr)
  then have "same_setup a a1" by simp
  then show "same_setup a a'"
    using same_setup_take_step[OF t] by (rule same_setup_trans)
  show "step a' = Suc (step a)"
    using take_step_fields(4)[OF t] a1 by simp
qed

lemma same_setup_raised:
  assumes "loop_iter w a = Raised e a1"
  shows "same_setup a a1" "step a1 = step a" "e \<noteq> UnboundLocalError"
proof -
  have c: "choose_action w a (get_valid_actions w (env a)) = Inl (e, a1)"
    using assms by (rule loop_iter_Raised(2))
  have a1: "a1 = (if kind a = LLMAgent then trim_history a else a)"
    using c by (rule choose_action_Inl)
  then show "same_setup a a1" "step a1 = step a" by simp_all
  show "e \<noteq> UnboundLocalError"
    using c
    by (auto simp: choose_action_def llm_choose_action_def try_request_def and_then_def
        request_content_def random_choice_def caught_def Let_def
        split: agent_kind.splits sum.splits option.splits if_splits http_result.splits
        elim!: subscript_key.elims subscript_zero.elims strip_method.elims)
qed


lemma walk_loop_setup:
  "walk_loop w xs i a = (i', a') \<Longrightarrow> same_setup a a' \<and> step a' = step a + length xs"
proof (induction xs arbitrary: i a)
  case Nil
  then show ?case by simp
next
  case (Cons x xs)
  obtain d i1 a1 where t: "take_step w a x = (d, i1, a1)"
    by (cases "take_step w a x") auto
  have "walk_loop w xs (Some i1) a1 = (i', a')"
    using Cons.prems t by simp
  from Cons.IH[OF this] same_setup_take_step[OF t] take_step_fields(4)[OF t]
  show ?case by (auto intro: same_setup_trans)
qed


text \<open>
  C10. When the legal-action set is empty at the first step of \<open>Agent.run\<close>, the loop is
  left with the local variable \<open>info\<close> unbound, \<open>run\<close> raises \<open>UnboundLocalError\<close> at
  \<open>self.info = info\<close>, and \<open>env.close()\<close> is not called.
\<close>

theorem unbound_info_on_first_step:
  assumes "new_agent w k e ms c f = Inr a" and "k \<noteq> WalkThroughAgent"
    and "get_valid_actions w (env a) = []"
  shows "run_loop w n False None a = Some (Inr (None, a))
         \<and> run w n a = Some (Inl (UnboundLocalError, a)) \<and> \<not> env_closed a"
proof -
  have b: "loop_iter w a = Break" using assms(3) by (simp add: loop_iter_Break)
  have l: "run_loop w n False None a = Some (Inr (None, a))"
    using b by (cases n) (simp_all add: run_loop_0 run_loop_Suc)
  have "kind a \<noteq> WalkThroughAgent"
    using new_agent_fields(1)[OF assms(1)] assms(2) by simp
  then have "run w n a = Some (Inl (UnboundLocalError, a))"
    using l by (simp add: run_def agent_run_def finish_def)
  then show ?thesis
    using l new_agent_fields(2)[OF assms(1)] by simp
qed

theorem unbound_info_on_first_step_witness:
  "new_agent silent_world RandomAgent 0 (Some 5) 10 True
     = Inr (projr (new_agent silent_world RandomAgent 0 (Some 5) 10 True))
   \<and> RandomAgent \<noteq> WalkThroughAgent
   \<and> get_valid_actions silent_world
        (env (projr (new_agent silent_world RandomAgent 0 (Some 5) 10 True))) = []
   \<and> map_option raised (run silent_world 3 (projr (new_agent silent_world RandomAgent 0 (Some 5) 10 True)))
        = Some (Some UnboundLocalError)
   \<and> \<not> env_closed (projr (new_agent silent_world RandomAgent 0 (Some 5) 10 True))"
proof -
  define a where "a = projr (new_agent silent_world RandomAgent 0 (Some 5) 10 True)"
  have h1: "new_agent silent_world RandomAgent 0 (Some 5) 10 True = Inr a"
    by (simp add: a_def new_agent_Inr)
  have h2: "RandomAgent \<noteq> WalkThroughAgent" by simp
  have h3: "get_valid_actions silent_world (env a) = []"
    by (simp add: silent_world_def)
  show ?thesis
    using unbound_info_on_first_step[OF h1 h2 h3, of 3] h1 h3
    by (simp add: a_def[symmetric])
qed

lemmas llm_eval_defs = llm_choose_action_def trim_history_def try_request_def
  request_content_def and_then_def caught_def answer_def system_message_def



subsection \<open>The keys of the logs\<close>

lemma loop_reach_inv:
  assumes "loop_reach w a0 cfg"
  shows "same_setup a0 (snd (snd cfg)) \<and> (log_inv a0 \<longrightarrow> log_inv (snd (snd cfg)))"
  using assms
proof (induction rule: loop_reach.induct)
  case start
  show ?case by simp
next
  case (iter d i a d1 i1 a1)
  have "same_setup a a1" using iter.hyps(3) by (rule same_setup_loop_iter)
  moreover have "log_inv a \<Longrightarrow> log_inv a1"
    using iter.hyps(3) by (rule log_inv_loop_iter[rotated])
  ultimately show ?case using iter.IH by (auto intro: same_setup_trans)
qed

text \<open>
  C7, as amended. Each time the loop of an episode evaluates its condition (and so when
  it is left), with the step counter at \<open>step\<close>, the actions are recorded exactly for the
  indices \<open>0 .. step - 1\<close> and the rewards exactly for the indices \<open>1 .. step\<close>.
\<close>

theorem log_keys_at_loop_head:
  assumes "new_agent w k e ms c f = Inr a0" and "loop_reach w a0 (d, i, a)"
  shows "dom (actions a) = {0..<step a} \<and> dom (rewards a) = {1..step a}"
proof -
  have "log_inv a0" using assms(1) by (rule new_agent_log_inv)
  then have "log_inv a" using loop_reach_inv[OF assms(2)] by simp
  then show ?thesis by (simp add: log_inv_def atLeast0LessThan)
qed

lemma demo_first_iteration:
  "loop_iter demo_world demo_agent = Next False [''moves'' \<mapsto> 1] after_one_step"
proof -
  have "is_Next (loop_iter demo_world demo_agent)"
    "next_done (loop_iter demo_world demo_agent) = False"
    "next_info (loop_iter demo_world demo_agent) = [''moves'' \<mapsto> 1]"
    by (simp_all add: demo_agent_def eval_defs)
  then show ?thesis
    unfolding after_one_step_def
    by (cases "loop_iter demo_world demo_agent") simp_all
qed

lemma demo_reach:
  "loop_reach demo_world demo_agent (False, Some [''moves'' \<mapsto> 1], after_one_step)"
proof (rule loop_reach.iter)
  show "loop_reach demo_world demo_agent (False, None, demo_agent)" by (rule loop_reach.start)
  show "loop_cond False demo_agent" by (simp add: demo_agent_def eval_defs)
  show "loop_iter demo_world demo_agent = Next False [''moves'' \<mapsto> 1] after_one_step"
    by (rule demo_first_iteration)
qed

lemma after_one_step_log:
  "step after_one_step = 1" "rewards after_one_step 0 = None"
  "rewards after_one_step 1 = Some 1" "actions after_one_step 0 = Some ''north''"
  by (simp_all add: after_one_step_def demo_agent_def eval_defs)

text \<open>
  C7, as stated, fails: after the first step of the small game the step counter is 1,
  and the reward is recorded under the index 1, not under 0.
\<close>

theorem reward_keys_counterexample:
  "loop_reach demo_world demo_agent (False, Some [''moves'' \<mapsto> 1], after_one_step)
   \<and> step after_one_step = 1
   \<and> rewards after_one_step 0 = None \<and> rewards after_one_step 1 = Some 1
   \<and> dom (rewards after_one_step) \<noteq> {0..<step after_one_step}"
proof -
  have "0 \<notin> dom (rewards after_one_step)" by (simp add: dom_def after_one_step_log)
  moreover have "0 \<in> {0..<step after_one_step}" by (simp add: after_one_step_log)
  ultimately have "dom (rewards after_one_step) \<noteq> {0..<step after_one_step}" by blast
  then show ?thesis using demo_reach after_one_step_log by simp
qed

theorem log_keys_at_loop_head_witness:
  "new_agent demo_world RandomAgent 0 None 10 True = Inr demo_agent
   \<and> loop_reach demo_world demo_agent (False, Some [''moves'' \<mapsto> 1], after_one_step)
   \<and> dom (actions after_one_step) = {0..<1} \<and> dom (rewards after_one_step) = {1..1}"
proof -
  have h1: "new_agent demo_world RandomAgent 0 None 10 True = Inr demo_agent"
    by (simp add: demo_agent_def new_agent_Inr)
  show ?thesis
    using log_keys_at_loop_head[OF h1 demo_reach] h1 demo_reach
    by (simp add: after_one_step_log)
qed

subsection \<open>The step maximum\<close>

lemma run_loop_within_max:
  "max_steps a = Some M \<Longrightarrow> 1 \<le> M \<Longrightarrow> int (step a) \<le> M \<Longrightarrow> run_loop w n d i a = Some r
     \<Longrightarrow> int (step (case r of Inl (e, a') \<Rightarrow> a' | Inr (i', a') \<Rightarrow> a')) \<le> M"
proof (induction n arbitrary: d i a)
  case 0
  then show ?case
    by (auto simp: run_loop_0 split: if_splits iteration.splits dest: same_setup_raised(2))
next
  case (Suc n)
  show ?case
  proof (cases "loop_cond d a")
    case False
    with Suc.prems show ?thesis by (auto simp: run_loop_Suc)
  next
    case True
    show ?thesis
    proof (cases "loop_iter w a")
      case Break
      with True Suc.prems show ?thesis by (auto simp: run_loop_Suc)
    next
      case (Raised e a1)
      with True Suc.prems same_setup_raised(2)[OF Raised] show ?thesis
        by (auto simp: run_loop_Suc)
    next
      case (Next d1 i1 a1)
      note s = same_setup_loop_iter[OF Next]
      have m: "max_steps a1 = Some M" using s(1) Suc.prems(1) by (simp add: same_setup_def)
      have "int (step a) < M"
        using True Suc.prems(1,2) by (simp add: loop_cond_def)
      then have b: "int (step a1) \<le> M" using s(2) by simp
      have "run_loop w n d1 (Some i1) a1 = Some r"
        using True Next Suc.prems(4) by (simp add: run_loop_Suc)
      with Suc.IH[OF m Suc.prems(2) b] show ?thesis by blast
    qed
  qed
qed

lemma run_loop_returns:
  "max_steps a = Some M \<Longrightarrow> 1 \<le> M \<Longrightarrow> M \<le> int (step a) + int n
     \<Longrightarrow> \<exists>r. run_loop w n d i a = Some r"
proof (induction n arbitrary: d i a)
  case 0
  then have "\<not> loop_cond d a" by (simp add: loop_cond_def)
  then show ?case by (simp add: run_loop_0)
next
  case (Suc n)
  show ?case
  proof (cases "loop_cond d a")
    case False
    then show ?thesis by (simp add: run_loop_Suc)
  next
    case True
    show ?thesis
    proof (cases "loop_iter w a")
      case Break
      with True show ?thesis by (simp add: run_loop_Suc)
    next
      case (Raised e a1)
      with True show ?thesis by (simp add: run_loop_Suc)
    next
      case (Next d1 i1 a1)
      note s = same_setup_loop_iter[OF Next]
      have m: "max_steps a1 = Some M" using s(1) Suc.prems(1) by (simp add: same_setup_def)
      have "M \<le> int (step a1) + int n" using s(2) Suc.prems(3) by simp
      from Suc.IH[OF m Suc.prems(2) this, of d1 "Some i1"]
      show ?thesis using True Next by (simp add: run_loop_Suc)
    qed
  qed
qed

lemma agent_run_step:
  assumes "agent_run w n a = Some r"
  obtains r0 where "run_loop w n False None a = Some r0"
    "step (agent_of r) = step (case r0 of Inl (e, a') \<Rightarrow> a' | Inr (i', a') \<Rightarrow> a')"
proof -
  obtain r0 where rl: "run_loop w n False None a = Some r0"
    using assms by (auto simp: agent_run_def split: option.splits)
  have "step (agent_of r) = step (case r0 of Inl (e, a') \<Rightarrow> a' | Inr (i', a') \<Rightarrow> a')"
  proof (cases r0)
    case (Inl p)
    then show ?thesis using assms rl by (cases p) (auto simp: agent_run_def)
  next
    case (Inr p)
    then show ?thesis using assms rl by (cases p) (auto simp: agent_run_def step_finish)
  qed
  with rl show ?thesis by (rule that)
qed

lemma agent_run_returns:
  assumes "run_loop w n False None a = Some r0"
  shows "\<exists>r. agent_run w n a = Some r"
  using assms by (cases r0) (auto simp: agent_run_def)

text \<open>
  C5, as amended. For every configured step maximum \<open>M \<ge> 1\<close>, the episode of a random or
  model-driven agent ends, within \<open>M\<close> iterations, and when it ends the step counter is
  at most \<open>M\<close>. The episode of a fixed-script agent ends with the step counter equal to
  the length of the walkthrough, whatever the maximum.
\<close>

theorem step_maximum:
  assumes "new_agent w k e ms c f = Inr a"
  shows "((k = RandomAgent \<or> k = LLMAgent) \<and> ms = Some M \<and> 1 \<le> M \<longrightarrow>
            (\<exists>r. run w (nat M) a = Some r)
            \<and> (\<forall>n r. run w n a = Some r \<longrightarrow> int (step (agent_of r)) \<le> M))
         \<and> (k = WalkThroughAgent \<longrightarrow>
              (\<exists>r. run w n' a = Some r
                   \<and> step (agent_of r) = length (get_walkthrough w (env a))))"
proof (intro conjI impI)
  assume h: "(k = RandomAgent \<or> k = LLMAgent) \<and> ms = Some M \<and> 1 \<le> M"
  note f = new_agent_fields[OF assms]
  have k: "kind a \<noteq> WalkThroughAgent" using h f(1) by auto
  have m: "max_steps a = Some M" using h f(3) by simp
  have M: "1 \<le> M" using h by simp
  have "\<exists>r0. run_loop w (nat M) False None a = Some r0"
    using m M by (rule run_loop_returns) (simp add: f(4))
  then have "\<exists>r. agent_run w (nat M) a = Some r" by (auto dest: agent_run_returns)
  then show "\<exists>r. run w (nat M) a = Some r" using k by (simp add: run_def)
  show "\<forall>n r. run w n a = Some r \<longrightarrow> int (step (agent_of r)) \<le> M"
  proof (intro allI impI)
    fix n r assume "run w n a = Some r"
    then have "agent_run w n a = Some r" using k by (simp add: run_def)
    then obtain r0 where rl: "run_loop w n False None a = Some r0"
      and st: "step (agent_of r) = step (case r0 of Inl (e, a') \<Rightarrow> a' | Inr (i', a') \<Rightarrow> a')"
      by (rule agent_run_step)
    have "int (step a) \<le> M" using M f(4) by simp
    from run_loop_within_max[OF m M this rl] st
    show "int (step (agent_of r)) \<le> M" by simp
  qed
next
  assume k: "k = WalkThroughAgent"
  note f = new_agent_fields[OF assms]
  obtain i' a' where wl: "walk_loop w (get_walkthrough w (env a)) None a = (i', a')"
    by (cases "walk_loop w (get_walkthrough w (env a)) None a") auto
  have "run w n' a = Some (finish i' a')"
    using k f(1) wl by (simp add: run_def walkthrough_run_def)
  moreover have "step (agent_of (finish i' a')) = length (get_walkthrough w (env a))"
    using walk_loop_setup[OF wl] f(4) by (simp add: step_finish)
  ultimately show "\<exists>r. run w n' a = Some r
      \<and> step (agent_of r) = length (get_walkthrough w (env a))" by blast
qed

text \<open>
  C5, as stated, fails for the maximum 0, which \<open>not self.max_steps\<close> takes for no
  maximum: the random agent of the small game takes two steps.
\<close>

theorem step_maximum_counterexample:
  "max_steps zero_max_agent = Some 0
   \<and> map_option raised (run demo_world 2 zero_max_agent) = Some None
   \<and> map_option (step \<circ> agent_of) (run demo_world 2 zero_max_agent) = Some 2"
  by (simp add: zero_max_agent_def eval_defs numeral_2_eq_2)

theorem step_maximum_witness:
  "new_agent demo_world RandomAgent 0 (Some 1) 10 True
     = Inr (projr (new_agent demo_world RandomAgent 0 (Some 1) 10 True))
   \<and> (RandomAgent = RandomAgent \<or> RandomAgent = LLMAgent) \<and> Some (1::int) = Some 1 \<and> (1::int) \<le> 1
   \<and> run demo_world (nat 1) (projr (new_agent demo_world RandomAgent 0 (Some 1) 10 True))
      = Some (the (run demo_world (nat 1) (projr (new_agent demo_world RandomAgent 0 (Some 1) 10 True))))
   \<and> int (step (agent_of
        (the (run demo_world (nat 1) (projr (new_agent demo_world RandomAgent 0 (Some 1) 10 True))))))
      \<le> 1
   \<and> new_agent demo_world WalkThroughAgent 0 (Some 1) 10 True
     = Inr (projr (new_agent demo_world WalkThroughAgent 0 (Some 1) 10 True))
   \<and> (\<exists>r. run demo_world 0 (projr (new_agent demo_world WalkThroughAgent 0 (Some 1) 10 True)) = Some r
          \<and> step (agent_of r) = 3)"
proof -
  define a where "a = projr (new_agent demo_world RandomAgent 0 (Some 1) 10 True)"
  define b where "b = projr (new_agent demo_world WalkThroughAgent 0 (Some 1) 10 True)"
  define r where "r = the (run demo_world (nat 1) a)"
  have h1: "new_agent demo_world RandomAgent 0 (Some 1) 10 True = Inr a"
    by (simp add: a_def new_agent_Inr)
  have h2: "new_agent demo_world WalkThroughAgent 0 (Some 1) 10 True = Inr b"
    by (simp add: b_def new_agent_Inr)
  have "returned (run demo_world (nat 1) a)"
    by (simp add: a_def eval_defs)
  then have e: "run demo_world (nat 1) a = Some r"
    unfolding r_def by (cases "run demo_world (nat 1) a") simp_all
  have w: "get_walkthrough demo_world (env b) = [''north'', ''east'', ''open door'']"
    by (simp add: demo_world_def)
  have "\<exists>r. run demo_world 0 b = Some r \<and> step (agent_of r) = 3"
    using step_maximum[OF h2, of 1 0] w by (simp add: numeral_3_eq_3)
  moreover have "int (step (agent_of r)) \<le> 1"
    using step_maximum[OF h1, of 1] e by simp
  ultimately show ?thesis
    using h1 h2 e by (simp add: a_def[symmetric] b_def[symmetric] r_def[symmetric])
qed

subsection \<open>Running out of legal actions\<close>

lemma run_loop_from_reach:
  assumes "loop_reach w a0 cfg"
  shows "\<exists>k. \<forall>n. run_loop w (k + n) False None a0
               = run_loop w n (fst cfg) (fst (snd cfg)) (snd (snd cfg))"
  using assms
proof (induction rule: loop_reach.induct)
  case start
  have "\<forall>n. run_loop w (0 + n) False None a0 = run_loop w n False None a0" by simp
  then show ?case by (intro exI[of _ 0]) simp
next
  case (iter d i a d1 i1 a1)
  then obtain k where k: "\<forall>n. run_loop w (k + n) False None a0 = run_loop w n d i a"
    by auto
  have "\<forall>n. run_loop w (Suc k + n) False None a0 = run_loop w n d1 (Some i1) a1"
  proof
    fix n
    have "run_loop w (Suc k + n) False None a0 = run_loop w (k + Suc n) False None a0"
      by simp
    also have "\<dots> = run_loop w (Suc n) d i a" using k by blast
    also have "\<dots> = run_loop w n d1 (Some i1) a1"
      using iter.hyps(2,3) by (simp add: run_loop_Suc)
    finally show "run_loop w (Suc k + n) False None a0 = run_loop w n d1 (Some i1) a1" .
  qed
  then show ?case by (intro exI[of _ "Suc k"]) simp
qed

lemma run_loop_no_actions:
  assumes "get_valid_actions w (env a) = []"
  shows "run_loop w n d i a = Some (Inr (i, a))"
proof -
  have "loop_iter w a = Break" using assms by (simp add: loop_iter_Break)
  then show ?thesis by (cases n) (simp_all add: run_loop_0 run_loop_Suc)
qed

text \<open>
  C9. When an iteration of the loop has taken a step and the legal-action set is empty
  afterwards, the episode ends there: \<open>run\<close> returns (with enough fuel for the
  iterations before), nothing is raised, and the stored \<open>info\<close> is the one that this
  last call of \<open>env.step\<close> returned.
\<close>

theorem no_actions_mid_episode:
  assumes "kind a0 \<noteq> WalkThroughAgent"
    and "loop_reach w a0 (d0, i0, a1)" and "loop_cond d0 a1"
    and "loop_iter w a1 = Next d i a"
    and "get_valid_actions w (env a) = []"
  shows "\<exists>x. actions a (step a1) = Some x
           \<and> i = snd (snd (snd (fst (env_step w (env a1) x))))
           \<and> (\<exists>k. \<forall>n\<ge>k. run w n a0 = Some (Inr (a\<lparr>info := Some i, env_closed := True\<rparr>)))"
proof -
  obtain x a2 where c: "choose_action w a1 (get_valid_actions w (env a1)) = Inr (x, a2)"
    and t: "take_step w a2 x = (d, i, a)"
    using assms(4) by (rule loop_iter_Next)
  have a2: "a2 = (if kind a1 = LLMAgent then trim_history a1 else a1)"
    using c by (rule choose_action_Inr)
  then have e: "env a2 = env a1" "step a2 = step a1" by simp_all
  have 1: "actions a (step a1) = Some x"
    using take_step_fields(5)[OF t] e by simp
  have 2: "i = snd (snd (snd (fst (env_step w (env a1) x))))"
    using take_step_fields(11)[OF t] e by simp
  have "loop_reach w a0 (d, Some i, a)"
    using assms(2,3,4) by (rule loop_reach.iter)
  from run_loop_from_reach[OF this]
  obtain k where k: "\<forall>n. run_loop w (k + n) False None a0 = run_loop w n d (Some i) a"
    by auto
  have "\<forall>n\<ge>k. run w n a0 = Some (Inr (a\<lparr>info := Some i, env_closed := True\<rparr>))"
  proof (intro allI impI)
    fix n assume "k \<le> n"
    then obtain m where n: "n = k + m" using le_Suc_ex by blast
    have "run_loop w n False None a0 = Some (Inr (Some i, a))"
      using k run_loop_no_actions[OF assms(5)] n by simp
    then show "run w n a0 = Some (Inr (a\<lparr>info := Some i, env_closed := True\<rparr>))"
      using assms(1) by (simp add: run_def agent_run_def finish_def close_env_def)
  qed
  with 1 2 show ?thesis by blast
qed

lemma trap_first_iteration:
  "loop_iter trap_world trapped_agent
     = Next False [''moves'' \<mapsto> 1] (next_agent (loop_iter trap_world trapped_agent))"
proof -
  have "is_Next (loop_iter trap_world trapped_agent)"
    "next_done (loop_iter trap_world trapped_agent) = False"
    "next_info (loop_iter trap_world trapped_agent) = [''moves'' \<mapsto> 1]"
    by (simp_all add: trapped_agent_def trap_world_def eval_defs)
  then show ?thesis
    by (cases "loop_iter trap_world trapped_agent") simp_all
qed

theorem no_actions_mid_episode_witness:
  "kind trapped_agent \<noteq> WalkThroughAgent
   \<and> loop_reach trap_world trapped_agent (False, None, trapped_agent)
   \<and> loop_cond False trapped_agent
   \<and> loop_iter trap_world trapped_agent
       = Next False [''moves'' \<mapsto> 1] (next_agent (loop_iter trap_world trapped_agent))
   \<and> get_valid_actions trap_world (env (next_agent (loop_iter trap_world trapped_agent))) = []
   \<and> (\<exists>k. \<forall>n\<ge>k. run trap_world n trapped_agent
         = Some (Inr ((next_agent (loop_iter trap_world trapped_agent))
                        \<lparr>info := Some [''moves'' \<mapsto> 1], env_closed := True\<rparr>)))"
proof -
  have h1: "kind trapped_agent \<noteq> WalkThroughAgent"
    by (simp add: trapped_agent_def new_agent_Inr agent_init_fields)
  have h2: "loop_reach trap_world trapped_agent (False, None, trapped_agent)"
    by (rule loop_reach.start)
  have h3: "loop_cond False trapped_agent"
    by (simp add: trapped_agent_def new_agent_Inr agent_init_fields loop_cond_def)
  have h5: "get_valid_actions trap_world (env (next_agent (loop_iter trap_world trapped_agent))) = []"
    by (simp add: trapped_agent_def trap_world_def eval_defs)
  show ?thesis
    using no_actions_mid_episode[OF h1 h2 h3 trap_first_iteration h5]
      h1 h2 h3 trap_first_iteration h5
    by blast
qed

subsection \<open>The action that the response names\<close>

lemma first_match_at:
  "i < length va \<Longrightarrow> re_search (va ! i) raw \<Longrightarrow> \<forall>j<i. \<not> re_search (va ! j) raw
     \<Longrightarrow> first_match va raw = Some (va ! i)"
proof (induction va arbitrary: i)
  case Nil
  then show ?case by simp
next
  case (Cons x va)
  show ?case
  proof (cases i)
    case 0
    with Cons.prems show ?thesis by simp
  next
    case (Suc k)
    have "\<not> re_search x raw" using Cons.prems(3) Suc by force
    moreover have "first_match va raw = Some (va ! k)"
    proof (rule Cons.IH)
      show "k < length va" using Cons.prems(1) Suc by simp
      show "re_search (va ! k) raw" using Cons.prems(2) Suc by simp
      show "\<forall>j<k. \<not> re_search (va ! j) raw"
      proof (intro allI impI)
        fix j assume "j < k"
        then have "Suc j < i" using Suc by simp
        then have "\<not> re_search ((x # va) ! Suc j) raw" using Cons.prems(3) by blast
        then show "\<not> re_search (va ! j) raw" by simp
      qed
    qed
    ultimately show ?thesis using Suc by simp
  qed
qed

lemma first_match_Some:
  "first_match va raw = Some x \<Longrightarrow>
     \<exists>i<length va. va ! i = x \<and> re_search x raw \<and> (\<forall>j<i. \<not> re_search (va ! j) raw)"
proof (induction va)
  case Nil
  then show ?case by simp
next
  case (Cons y va)
  show ?case
  proof (cases "re_search y raw")
    case True
    with Cons.prems have "x = y" by simp
    with True show ?thesis by (intro exI[of _ 0]) simp
  next
    case False
    with Cons.prems have "first_match va raw = Some x" by simp
    from Cons.IH[OF this] obtain i where i: "i < length va" "va ! i = x" "re_search x raw"
      "\<forall>j<i. \<not> re_search (va ! j) raw" by blast
    have "\<forall>j<Suc i. \<not> re_search ((y # va) ! j) raw"
    proof (intro allI impI)
      fix j assume "j < Suc i"
      then show "\<not> re_search ((y # va) ! j) raw"
        using False i(4) by (cases j) simp_all
    qed
    with i show ?thesis by (intro exI[of _ "Suc i"]) simp
  qed
qed

lemma first_match_None:
  "first_match va raw = None \<longleftrightarrow> (\<forall>x\<in>set va. \<not> re_search x raw)"
  by (induction va) simp_all

text \<open>
  The loop over the legal actions: when the request succeeds with the response text
  \<open>raw\<close>, the model-driven selection returns the first action of the list, in the order
  supplied, that the regular expression finds in \<open>raw\<close>.
\<close>

lemma llm_first_match:
  assumes "observations a (step a) = Some ob"
    and "request_content
           (http_post w (step a) (chat_history (trim_history a) @ [(User, Query ob va)]))
         = Inr raw"
    and "i < length va" and "re_search (va ! i) raw"
    and "\<forall>j<i. \<not> re_search (va ! j) raw"
  shows "llm_choose_action w a va = Inr (va ! i, trim_history a)"
proof -
  have "first_match va raw = Some (va ! i)"
    using assms(3,4,5) by (rule first_match_at)
  then have "try_request w (trim_history a)
               (chat_history (trim_history a) @ [(User, Query ob va)]) va = Inr (va ! i)"
    using assms(2) by (simp add: try_request_def and_then_def)
  then show ?thesis
    using assms(1) by (simp add: llm_choose_action_def Let_def)
qed

lemma demo_response:
  "request_content (http_post demo_world k ms) = Inr ''I will go north now''"
  by (simp add: demo_world_def answer_def request_content_def and_then_def strip_def is_space_def)

lemma demo_search:
  "re_search ''go north'' ''I will go north now''"
  "re_search ''north'' ''I will go north now''"
  "\<not> re_search ''nor'' ''I will go north now''"
  "re_search ''GO North'' ''I will go north now''"
  by code_simp+

lemma llm_first_match_example:
  "observations llm_demo_agent (step llm_demo_agent) = Some ''West of House''
   \<and> request_content
        (http_post demo_world (step llm_demo_agent)
           (chat_history (trim_history llm_demo_agent)
            @ [(User, Query ''West of House'' [''go north'', ''north''])]))
      = Inr ''I will go north now''
   \<and> 0 < length [''go north'', ''north'']
   \<and> re_search ([''go north'', ''north''] ! 0) ''I will go north now''
   \<and> re_search ([''go north'', ''north''] ! 1) ''I will go north now''
   \<and> \<not> re_search ''nor'' ''I will go north now''
   \<and> llm_choose_action demo_world llm_demo_agent [''go north'', ''north'']
      = Inr (''go north'', trim_history llm_demo_agent)"
proof -
  have h1: "observations llm_demo_agent (step llm_demo_agent) = Some ''West of House''"
    by (simp add: llm_demo_agent_def new_agent_Inr agent_init_fields demo_world_def)
  have h2: "request_content
        (http_post demo_world (step llm_demo_agent)
           (chat_history (trim_history llm_demo_agent)
            @ [(User, Query ''West of House'' [''go north'', ''north''])]))
      = Inr ''I will go north now''"
    by (rule demo_response)
  have h3: "0 < length [''go north'', ''north'']" by simp
  have h4: "re_search ([''go north'', ''north''] ! 0) ''I will go north now''"
    using demo_search(1) by simp
  have h5: "\<forall>j<0::nat. \<not> re_search ([''go north'', ''north''] ! j) ''I will go north now''"
    by simp
  show ?thesis
    using llm_first_match[OF h1 h2 h3 h4 h5] h1 h2 h4 demo_search by simp
qed

lemma of_char_lower:
  "(of_char (lower c) :: nat) =
     (let n = (of_char c :: nat)
      in if (65 \<le> n \<and> n \<le> 90) \<or> (192 \<le> n \<and> n \<le> 214) \<or> (216 \<le> n \<and> n \<le> 222)
         then n + 32 else n)"
  by (auto simp: lower_def Let_def)

lemma lower_eq_iff: "lower c = lower d \<longleftrightarrow> same_letter c d"
proof -
  define cap :: "nat \<Rightarrow> bool" where
    "cap n = ((65 \<le> n \<and> n \<le> 90) \<or> (192 \<le> n \<and> n \<le> 214) \<or> (216 \<le> n \<and> n \<le> 222))" for n
  define n :: nat where "n = of_char c"
  define m :: nat where "m = of_char d"
  have shift: "cap k \<Longrightarrow> \<not> cap (k + 32)" for k
    unfolding cap_def by (elim disjE; simp)
  have lc: "(of_char (lower c) :: nat) = (if cap n then n + 32 else n)"
    and ld: "(of_char (lower d) :: nat) = (if cap m then m + 32 else m)"
    by (simp_all add: of_char_lower cap_def n_def m_def Let_def)
  have cd: "capital_of c d \<longleftrightarrow> cap n \<and> m = n + 32"
    and dc: "capital_of d c \<longleftrightarrow> cap m \<and> n = m + 32"
    by (simp_all add: capital_of_def cap_def n_def m_def Let_def)
  have e: "c = d \<longleftrightarrow> n = m" by (simp add: n_def m_def)
  have "lower c = lower d \<longleftrightarrow> (of_char (lower c) :: nat) = of_char (lower d)"
    by simp
  also have "\<dots> \<longleftrightarrow> (if cap n then n + 32 else n) = (if cap m then m + 32 else m)"
    by (simp only: lc ld)
  also have "\<dots> \<longleftrightarrow> n = m \<or> (cap n \<and> m = n + 32) \<or> (cap m \<and> n = m + 32)"
  proof (cases "cap n"; cases "cap m")
    assume "cap n" "cap m"
    then show ?thesis using shift[of n] shift[of m] by auto
  qed auto
  finally show ?thesis by (simp only: same_letter_def cd dc e)
qed

lemma capital_of_word: "capital_of C c \<Longrightarrow> is_word C \<and> is_word c"
  unfolding capital_of_def is_word_def Let_def
  by (elim conjE disjE; simp)

lemma same_letter_word: "same_letter c d \<Longrightarrow> is_word c = is_word d"
  unfolding same_letter_def using capital_of_word by blast

lemma map_lower_eq_iff:
  "map lower xs = map lower ys \<longleftrightarrow> list_all2 same_letter xs ys"
  by (auto simp: list_all2_conv_all_nth list_eq_iff_nth_eq lower_eq_iff)

lemma matches_at_whole_word:
  assumes "word_edged action" and "i \<le> length s"
  shows "matches_at action s i \<longleftrightarrow> whole_word_at action s i"
proof (cases "i + length action \<le> length s")
  case False
  then show ?thesis
    using assms by (auto simp: matches_at_def whole_word_at_def Let_def word_edged_def)
next
  case True
  define n where "n = length action"
  define found where "found = take n (drop i s)"
  have n: "0 < n" and hd: "is_word (action ! 0)" and lst: "is_word (action ! (n - 1))"
    using assms(1) by (auto simp: word_edged_def n_def hd_conv_nth last_conv_nth)
  have len: "length found = n" using True by (simp add: found_def n_def)
  have idx: "i + (n - 1) = i + n - 1" using n by simp
  have first: "found ! 0 = s ! i" and final: "found ! (n - 1) = s ! (i + n - 1)"
    using True n idx by (simp_all add: found_def n_def)
  have il: "i < length s" and jl: "i + n - 1 < length s"
    using True n unfolding n_def by linarith+
  have edges: "is_word (s ! i) \<and> is_word (s ! (i + n - 1))"
    if a: "list_all2 same_letter found action"
  proof -
    have "same_letter (found ! 0) (action ! 0)"
      using a n len by (simp add: list_all2_conv_all_nth)
    moreover have "same_letter (found ! (n - 1)) (action ! (n - 1))"
      using a n len by (simp add: list_all2_conv_all_nth)
    ultimately show ?thesis
      using hd lst first final same_letter_word by metis
  qed
  have left: "(take i s = [] \<or> \<not> is_word (last (take i s)))
                \<longleftrightarrow> \<not> (0 < i \<and> is_word (s ! (i - 1)))"
  proof (cases i)
    case 0
    then show ?thesis by simp
  next
    case (Suc k)
    then have "take i s \<noteq> []" using il by auto
    moreover have "last (take i s) = s ! (i - 1)"
      using Suc il by (simp add: take_Suc_conv_app_nth)
    ultimately show ?thesis using Suc by simp
  qed
  have right: "(drop (i + n) s = [] \<or> \<not> is_word (hd (drop (i + n) s)))
                 \<longleftrightarrow> \<not> (i + n < length s \<and> is_word (s ! (i + n)))"
  proof (cases "i + n < length s")
    case True
    then show ?thesis by (simp add: hd_drop_conv_nth)
  next
    case False
    then show ?thesis by simp
  qed
  have m: "matches_at action s i \<longleftrightarrow>
             at_boundary s i \<and> list_all2 same_letter found action \<and> at_boundary s (i + n)"
    using True by (auto simp: matches_at_def map_lower_eq_iff found_def n_def)
  have w: "whole_word_at action s i \<longleftrightarrow>
             list_all2 same_letter found action
             \<and> \<not> (0 < i \<and> is_word (s ! (i - 1)))
             \<and> \<not> (i + n < length s \<and> is_word (s ! (i + n)))"
    using len left right
    by (simp add: whole_word_at_def Let_def found_def[symmetric] n_def[symmetric])
  show ?thesis
  proof (cases "list_all2 same_letter found action")
    case False
    then show ?thesis using m w by simp
  next
    case True
    note e = edges[OF True]
    have b1: "at_boundary s i \<longleftrightarrow> \<not> (0 < i \<and> is_word (s ! (i - 1)))"
      using e il by (auto simp: at_boundary_def)
    have "i + n - 1 = i + n - Suc 0" by simp
    then have b2: "at_boundary s (i + n) \<longleftrightarrow> \<not> (i + n < length s \<and> is_word (s ! (i + n)))"
      using e n by (auto simp: at_boundary_def)
    show ?thesis using m w True b1 b2 by simp
  qed
qed

text \<open>
  For an action that begins and ends with a word character, the regular expression finds
  the action exactly when the action stands as a whole word, up to case, somewhere in
  the response.
\<close>

lemma re_search_whole_word:
  assumes "word_edged action"
  shows "re_search action s \<longleftrightarrow> whole_word_occurrence action s"
proof -
  have "matches_at action s i \<longleftrightarrow> whole_word_at action s i"
    if "i \<in> set [0..<Suc (length s)]" for i
    using assms that by (intro matches_at_whole_word) auto
  then show ?thesis
    by (simp add: re_search_def whole_word_occurrence_def list_ex_iff)
qed

text \<open>
  The part of C2 that the code keeps. When every legal action begins and ends with a word
  character, the request succeeds with the response text \<open>raw\<close>, and the action at index
  \<open>i\<close> is the first of the list, in the order supplied, that stands in \<open>raw\<close> as a whole
  word up to case, the model-driven selection returns that action.
\<close>

lemma llm_choose_whole_word:
  assumes "observations a (step a) = Some ob"
    and "request_content
           (http_post w (step a) (chat_history (trim_history a) @ [(User, Query ob va)]))
         = Inr raw"
    and "\<forall>x\<in>set va. word_edged x"
    and "i < length va" and "whole_word_occurrence (va ! i) raw"
    and "\<forall>j<i. \<not> whole_word_occurrence (va ! j) raw"
  shows "llm_choose_action w a va = Inr (va ! i, trim_history a)"
proof -
  have e: "re_search (va ! j) raw \<longleftrightarrow> whole_word_occurrence (va ! j) raw" if "j < length va" for j
    using assms(3) that by (intro re_search_whole_word) simp
  have "re_search (va ! i) raw" using e assms(4,5) by simp
  moreover have "\<forall>j<i. \<not> re_search (va ! j) raw" using e assms(4,6) by simp
  ultimately show ?thesis
    using assms(1,2,4) by (intro llm_first_match)
qed

lemma whole_word_examples:
  "whole_word_occurrence ''go north'' ''I will go north now''"
  "whole_word_occurrence ''Go North'' ''I will GO north now''"
  "\<not> whole_word_occurrence ''nor'' ''I will go north now''"
  "\<not> whole_word_occurrence ''north'' ''go northern''"
  "whole_word_occurrence ''look!'' ''look! (do not wait)''"
  "whole_word_occurrence ''look!'' ''look!''"
  by code_simp+

lemma shout_search:
  "\<not> re_search ''look!'' ''look! (do not wait)''"
  "re_search ''wait'' ''look! (do not wait)''"
  "\<not> re_search ''look!'' ''look!''"
  "re_search ''Go North'' ''I will GO north now''"
  by code_simp+

lemma shout_response:
  "request_content (http_post shout_world k ms) = Inr ''look! (do not wait)''"
  by (simp add: shout_world_def answer_def request_content_def and_then_def strip_def is_space_def)

text \<open>
  C2 on the code. The legal actions are \<open>look!\<close> and \<open>wait\<close>, in this order, and the response
  is \<open>look! (do not wait)\<close>. The first action stands in the response as a whole word, but
  the regular expression asks for a word boundary after its last character, which is not
  a word character, and so for a word character after it: the search for \<open>look!\<close> fails
  (as it does in the response \<open>look!\<close> itself), and the selection returns \<open>wait\<close>.
\<close>

theorem whole_word_action_skipped:
  "whole_word_occurrence ''look!'' ''look! (do not wait)''
   \<and> \<not> re_search ''look!'' ''look! (do not wait)''
   \<and> first_match [''look!'', ''wait''] ''look! (do not wait)'' = Some ''wait''
   \<and> chosen (llm_choose_action shout_world shout_agent [''look!'', ''wait'']) = Inr ''wait''
   \<and> whole_word_occurrence ''look!'' ''look!'' \<and> \<not> re_search ''look!'' ''look!''"
proof -
  have "observations shout_agent (step shout_agent) = Some ''West of House''"
    by (simp add: shout_agent_def new_agent_Inr agent_init_fields shout_world_def demo_world_def)
  then have "chosen (llm_choose_action shout_world shout_agent [''look!'', ''wait'']) = Inr ''wait''"
    by (simp add: llm_choose_action_def try_request_def and_then_def Let_def
        shout_response shout_search)
  then show ?thesis
    using whole_word_examples(5,6) shout_search(1,2,3) by simp
qed

subsection \<open>Failed requests and fallback\<close>

lemma random_choice_member:
  "va \<noteq> [] \<Longrightarrow> \<exists>x\<in>set va. random_choice n va = Inr x"
  by (simp add: random_choice_def)

text \<open>
  The part of C6 that the code keeps: when the request raises one of the exceptions of
  the \<open>except\<close> clause, or yields a text, the selection with fallback enabled returns a
  member of the list, and the selection with fallback disabled raises exactly when the
  request raised or no action of the list occurs in the text.
\<close>

lemma llm_choose_action_handled:
  assumes "va \<noteq> []" and "observations a (step a) = Some ob"
    and "request_content
           (http_post w (step a) (chat_history (trim_history a) @ [(User, Query ob va)])) = rc"
    and "case rc of Inl e \<Rightarrow> caught e | Inr raw \<Rightarrow> True"
  shows "fallback_to_random a \<Longrightarrow> \<exists>x\<in>set va. chosen (llm_choose_action w a va) = Inr x"
    and "\<not> fallback_to_random a \<Longrightarrow>
           (\<exists>e. chosen (llm_choose_action w a va) = Inl e)
             \<longleftrightarrow> (case rc of Inl e \<Rightarrow> True | Inr raw \<Rightarrow> first_match va raw = None)"
    and "\<not> fallback_to_random a \<Longrightarrow>
           (\<forall>y. chosen (llm_choose_action w a va) = Inr y \<longrightarrow> y \<in> set va)"
proof -
  obtain x where x: "x \<in> set va" "random_choice (rand w (step a)) va = Inr x"
    using random_choice_member[OF assms(1)] by blast
  show "\<exists>x\<in>set va. chosen (llm_choose_action w a va) = Inr x" if f: "fallback_to_random a"
  proof (cases rc)
    case (Inl e)
    then have "caught e" using assms(4) by simp
    then have "chosen (llm_choose_action w a va) = Inr x"
      using Inl assms(2,3) f x(2)
      by (simp add: llm_choose_action_def try_request_def and_then_def Let_def)
    then show ?thesis using x(1) by blast
  next
    case (Inr raw)
    show ?thesis
    proof (cases "first_match va raw")
      case None
      then have "chosen (llm_choose_action w a va) = Inr x"
        using Inr assms(2,3) f x(2)
        by (simp add: llm_choose_action_def try_request_def and_then_def Let_def)
      then show ?thesis using x(1) by blast
    next
      case (Some y)
      then have "chosen (llm_choose_action w a va) = Inr y"
        using Inr assms(2,3)
        by (simp add: llm_choose_action_def try_request_def and_then_def Let_def)
      moreover have "y \<in> set va" using first_match_Some[OF Some] by auto
      ultimately show ?thesis by blast
    qed
  qed
  show "(\<exists>e. chosen (llm_choose_action w a va) = Inl e)
          \<longleftrightarrow> (case rc of Inl e \<Rightarrow> True | Inr raw \<Rightarrow> first_match va raw = None)"
    if f: "\<not> fallback_to_random a"
  proof (cases rc)
    case (Inl e)
    then have "caught e" using assms(4) by simp
    then show ?thesis
      using Inl assms(2,3) f
      by (simp add: llm_choose_action_def try_request_def and_then_def Let_def)
  next
    case (Inr raw)
    then show ?thesis
      using assms(2,3) f
      by (cases "first_match va raw")
        (simp_all add: llm_choose_action_def try_request_def and_then_def Let_def caught_def)
  qed
  show "\<forall>y. chosen (llm_choose_action w a va) = Inr y \<longrightarrow> y \<in> set va"
    if f: "\<not> fallback_to_random a"
  proof (cases rc)
    case (Inl e)
    then have "caught e" using assms(4) by simp
    then show ?thesis
      using Inl assms(2,3) f
      by (simp add: llm_choose_action_def try_request_def and_then_def Let_def)
  next
    case (Inr raw)
    show ?thesis
    proof (cases "first_match va raw")
      case None
      then show ?thesis
        using Inr assms(2,3) f
        by (simp add: llm_choose_action_def try_request_def and_then_def Let_def caught_def)
    next
      case (Some y)
      moreover have "y \<in> set va" using first_match_Some[OF Some] by auto
      ultimately show ?thesis
        using Inr assms(2,3)
        by (simp add: llm_choose_action_def try_request_def and_then_def Let_def)
    qed
  qed
qed

text \<open>
  C6 on the code. The service answers with the JSON object \<open>{"choices": []}\<close>. Reading
  \<open>["choices"][0]\<close> raises \<open>IndexError\<close>, which the \<open>except\<close> clause does not name: with
  fallback enabled and two legal actions, \<open>choose_action\<close> raises instead of returning
  one of them. An answer whose \<open>content\<close> is \<open>null\<close> ends the same way, by the
  \<open>AttributeError\<close> of \<open>.strip()\<close>.
\<close>

theorem fallback_enabled_raises:
  "fallback_to_random fallback_agent
   \<and> request_content (http_post broken_world 0 []) = Inl IndexError
   \<and> \<not> caught IndexError
   \<and> request_content
        (Json (JObj [(''choices'', JArr [JObj [(''message'', JObj [(''content'', JNull)])]])]))
      = Inl AttributeError
   \<and> \<not> caught AttributeError
   \<and> chosen (llm_choose_action broken_world fallback_agent [''wait'', ''go north''])
      = Inl IndexError"
  by (simp add: fallback_agent_def broken_world_def new_agent_Inr agent_init_def reset_env_def
      demo_world_def llm_eval_defs Let_def)

subsection \<open>The conversation\<close>

lemma demo_world_fields:
  "env_reset demo_world e = ((''West of House'', Map.empty), 0)"
  "env_step demo_world e x = ((''Forest'', 1, 2 \<le> e + 1, [''moves'' \<mapsto> int (e + 1)]), e + 1)"
  "get_valid_actions demo_world e = [''go north'', ''north'']"
  "rand demo_world k = 1"
  by (simp_all add: demo_world_def)

lemma set_slice_from: "set (slice_from k xs) \<subseteq> set xs"
  by (simp add: slice_from_def Let_def set_drop_subset)

lemma length_slice_from: "length (slice_from k xs) \<le> length xs"
  by (simp add: slice_from_def Let_def)

lemma length_slice_from_neg:
  "0 < c \<Longrightarrow> int (length (slice_from (- c) xs)) \<le> c"
  by (auto simp: slice_from_def Let_def)

lemma chat_history_trim:
  "chat_history (trim_history a) =
     (if int (length (chat_history a)) > max_chat_history_size a * 3
      then system_message # slice_from (- max_chat_history_size a * 3) (drop 1 (chat_history a))
      else chat_history a)"
  by (simp add: trim_history_def)

lemma set_chat_history_trim:
  "set (chat_history (trim_history a)) \<subseteq> insert system_message (set (chat_history a))"
proof -
  have "set (slice_from k (drop 1 (chat_history a))) \<subseteq> set (chat_history a)" for k
    using set_slice_from[of k "drop 1 (chat_history a)"] set_drop_subset[of 1 "chat_history a"]
    by blast
  then show ?thesis by (auto simp: chat_history_trim)
qed

text \<open>
  C8, as amended. A call of the model-driven selection appends no turn: the
  conversation after it is the conversation before it, trimmed (so the same when it has
  at most \<open>3 * max_chat_history_size\<close> turns, and otherwise the system turn and turns that
  were there before); the turn with the observation and the legal actions is not
  stored. The three updates of the driver append one turn each.
\<close>

theorem policy_call_context:
  "chat_history (chosen_agent (llm_choose_action w a va)) = chat_history (trim_history a)
   \<and> (int (length (chat_history a)) \<le> max_chat_history_size a * 3 \<longrightarrow>
        chat_history (chosen_agent (llm_choose_action w a va)) = chat_history a)
   \<and> set (chat_history (chosen_agent (llm_choose_action w a va)))
        \<subseteq> insert system_message (set (chat_history a))
   \<and> (kind a = LLMAgent \<longrightarrow>
        chat_history (update_action a x) = chat_history a @ [(Assistant, StepAction (step a) x)]
        \<and> chat_history (update_reward a r) = chat_history a @ [(User, StepReward (step a) r)]
        \<and> chat_history (update_observation a ob)
            = chat_history a @ [(User, StepObservation (step a) ob)])"
  using set_chat_history_trim[of a]
  by (simp add: llm_choose_action_agent chat_history_trim)

lemma chatty_history:
  "chat_history chatty_agent =
     [(System, SystemPrompt), (User, FirstObservation 0 ''West of House''),
      (Assistant, StepAction 0 ''go north''), (User, StepReward 1 1),
      (User, StepObservation 1 ''Forest'')]"
  "max_chat_history_size chatty_agent = 1" "kind chatty_agent = LLMAgent"
  by (simp_all add: chatty_agent_def new_agent_Inr agent_init_def reset_env_def loop_iter_def
      choose_action_def llm_choose_action_def trim_history_def try_request_def and_then_def
      take_step_def demo_world_fields demo_response demo_search system_message_def Let_def)

text \<open>
  C8, as stated, fails: with \<open>max_chat_history_size=1\<close> the conversation has five turns
  after the first step, and the next call of the selection leaves four of them.
\<close>

theorem policy_call_context_counterexample:
  "length (chat_history chatty_agent) = 5
   \<and> chat_history (chosen_agent (llm_choose_action demo_world chatty_agent [''go north'', ''north'']))
      = [(System, SystemPrompt), (Assistant, StepAction 0 ''go north''), (User, StepReward 1 1),
         (User, StepObservation 1 ''Forest'')]
   \<and> chat_history (chosen_agent (llm_choose_action demo_world chatty_agent [''go north'', ''north'']))
      \<noteq> chat_history chatty_agent"
  by (simp add: llm_choose_action_agent chat_history_trim chatty_history slice_from_def
      system_message_def)

theorem policy_call_context_witness:
  "int (length (chat_history llm_demo_agent)) \<le> max_chat_history_size llm_demo_agent * 3
   \<and> kind llm_demo_agent = LLMAgent
   \<and> chat_history (chosen_agent (llm_choose_action demo_world llm_demo_agent [''go north'']))
      = chat_history llm_demo_agent
   \<and> chat_history (update_action llm_demo_agent ''go north'')
      = chat_history llm_demo_agent @ [(Assistant, StepAction 0 ''go north'')]"
proof -
  have h1: "int (length (chat_history llm_demo_agent)) \<le> max_chat_history_size llm_demo_agent * 3"
    and h2: "kind llm_demo_agent = LLMAgent" and s: "step llm_demo_agent = 0"
    by (simp_all add: llm_demo_agent_def new_agent_Inr agent_init_fields)
  note p = policy_call_context[of demo_world llm_demo_agent "[''go north'']" "''go north''"]
  have c2: "chat_history (chosen_agent (llm_choose_action demo_world llm_demo_agent [''go north'']))
      = chat_history llm_demo_agent"
    using p h1 by blast
  have "chat_history (update_action llm_demo_agent ''go north'')
      = chat_history llm_demo_agent @ [(Assistant, StepAction (step llm_demo_agent) ''go north'')]"
    using p h2 by blast
  then have c4: "chat_history (update_action llm_demo_agent ''go north'')
      = chat_history llm_demo_agent @ [(Assistant, StepAction 0 ''go north'')]"
    by (simp only: s)
  show ?thesis
    using h1 h2 c2 c4 by (intro conjI)
qed

text \<open>The shape of the conversation of an \<open>LLMAgent\<close>: the system turn, then other turns.\<close>

lemma operation_setup:
  "kind (apply_operation a op) = kind a"
  "max_chat_history_size (apply_operation a op) = max_chat_history_size a"
  by (cases op; simp)+

lemma operation_history:
  assumes "kind a = LLMAgent"
    and "chat_history a = system_message # rest" and "\<forall>m\<in>set rest. fst m \<noteq> System"
  shows "\<exists>rest'. chat_history (apply_operation a op) = system_message # rest'
           \<and> (\<forall>m\<in>set rest'. fst m \<noteq> System)"
proof (cases op)
  case Trim
  have "set (slice_from k (drop 1 (chat_history a))) \<subseteq> set rest" for k
    using set_slice_from[of k "drop 1 (chat_history a)"] assms(2) by simp
  then show ?thesis
    using Trim assms(2,3) by (auto simp: chat_history_trim)
qed (use assms in auto)

lemma operations_history:
  assumes "kind a = LLMAgent"
    and "chat_history a = system_message # rest" and "\<forall>m\<in>set rest. fst m \<noteq> System"
  shows "kind (foldl apply_operation a ops) = LLMAgent
         \<and> max_chat_history_size (foldl apply_operation a ops) = max_chat_history_size a
         \<and> (\<exists>rest'. chat_history (foldl apply_operation a ops) = system_message # rest'
                \<and> (\<forall>m\<in>set rest'. fst m \<noteq> System))"
  using assms
proof (induction ops arbitrary: a rest)
  case Nil
  then show ?case by simp
next
  case (Cons op ops)
  obtain rest' where r: "chat_history (apply_operation a op) = system_message # rest'"
    "\<forall>m\<in>set rest'. fst m \<noteq> System"
    using operation_history[OF Cons.prems] by blast
  have k: "kind (apply_operation a op) = LLMAgent"
    using Cons.prems(1) by (simp add: operation_setup)
  from Cons.IH[OF k r] show ?case by (simp add: operation_setup)
qed

lemma length_trim:
  assumes "1 \<le> max_chat_history_size a"
  shows "int (length (chat_history (trim_history a))) \<le> 3 * max_chat_history_size a + 1"
proof (cases "int (length (chat_history a)) > max_chat_history_size a * 3")
  case False
  then show ?thesis by (simp add: chat_history_trim)
next
  case True
  have "0 < max_chat_history_size a * 3" using assms by simp
  then have "int (length (slice_from (- (max_chat_history_size a * 3)) (drop 1 (chat_history a))))
               \<le> max_chat_history_size a * 3"
    by (rule length_slice_from_neg)
  then show ?thesis using True by (simp add: chat_history_trim)
qed

text \<open>
  The part of C4 that the code keeps. After any sequence of updates and selections of an
  episode, the conversation that the trimming of \<open>choose_action\<close> leaves begins with the
  system turn, which is its only system turn; and for every
  \<open>max_chat_history_size \<ge> 1\<close> it has at most \<open>3 * max_chat_history_size + 1\<close> turns.
\<close>

lemma trimmed_context_bound:
  assumes "new_agent w LLMAgent e ms c f = Inr a0"
    and "a = trim_history (foldl apply_operation a0 ops)"
  shows "(\<exists>rest. chat_history a = system_message # rest \<and> (\<forall>m\<in>set rest. fst m \<noteq> System))
         \<and> (1 \<le> c \<longrightarrow> int (length (chat_history a)) \<le> 3 * c + 1)"
proof -
  note f = new_agent_fields[OF assms(1)]
  have k: "kind a0 = LLMAgent" by (rule f(1))
  have h: "chat_history a0 = system_message # [(User, FirstObservation 0 (fst (fst (env_reset w e))))]"
    using f(11) by simp
  have n: "\<forall>m\<in>set [(User, FirstObservation 0 (fst (fst (env_reset w e))) :: 'b content)]. fst m \<noteq> System"
    by simp
  have "a = foldl apply_operation a0 (ops @ [Trim])" using assms(2) by simp
  with operations_history[OF k h n, of "ops @ [Trim]"]
  have 1: "\<exists>rest. chat_history a = system_message # rest \<and> (\<forall>m\<in>set rest. fst m \<noteq> System)"
    and m: "max_chat_history_size a = c"
    using f(9) by simp_all
  have "1 \<le> c \<longrightarrow> int (length (chat_history a)) \<le> 3 * c + 1"
  proof
    assume "1 \<le> c"
    then have "1 \<le> max_chat_history_size (foldl apply_operation a0 ops)"
      using m assms(2) by simp
    from length_trim[OF this] show "int (length (chat_history a)) \<le> 3 * c + 1"
      using m assms(2) by simp
  qed
  with 1 show ?thesis by blast
qed

text \<open>
  C4 on the code. With \<open>max_chat_history_size=0\<close> the test
  \<open>len(self.chat_history) > 0\<close> sends \<open>choose_action\<close> into the trimming, and the slice
  \<open>[-0:]\<close> of the trimming is the whole list: no turn is evicted. A new agent keeps its two
  turns, where the bound \<open>3 * 0 + 1\<close> is one, and after the first step all five turns are
  kept.
\<close>

theorem zero_window_keeps_every_turn:
  "max_chat_history_size windowless_agent = 0
   \<and> chat_history (trim_history windowless_agent)
      = [(System, SystemPrompt), (User, FirstObservation 0 ''West of House'')]
   \<and> \<not> int (length (chat_history (trim_history windowless_agent)))
          \<le> 3 * max_chat_history_size windowless_agent + 1
   \<and> length (chat_history (trim_history (foldl apply_operation windowless_agent
        [UpdateAction ''north'', IncrementStep, UpdateReward 1, UpdateObservation ''Forest''])))
      = 5"
  by (simp add: windowless_agent_def new_agent_Inr agent_init_def reset_env_def
      demo_world_fields chat_history_trim slice_from_def system_message_def Let_def)

lemma trimmed_context_bound_example:
  "new_agent demo_world LLMAgent 0 None 1 True
     = Inr (projr (new_agent demo_world LLMAgent 0 None 1 True))
   \<and> (1::int) \<le> 1
   \<and> int (length (chat_history
        (trim_history (foldl apply_operation (projr (new_agent demo_world LLMAgent 0 None 1 True))
           [UpdateAction ''north'', IncrementStep, UpdateReward 1, UpdateObservation ''Forest''])))) 
      \<le> 3 * 1 + 1
   \<and> hd (chat_history
        (trim_history (foldl apply_operation (projr (new_agent demo_world LLMAgent 0 None 1 True))
           [UpdateAction ''north'', IncrementStep, UpdateReward 1, UpdateObservation ''Forest''])))
      = system_message"
proof -
  define a0 :: "(nat, int, int) agent" where "a0 = projr (new_agent demo_world LLMAgent 0 None 1 True)"
  define a where "a = trim_history (foldl apply_operation a0
           [UpdateAction ''north'', IncrementStep, UpdateReward 1, UpdateObservation ''Forest''])"
  have h1: "new_agent demo_world LLMAgent 0 None 1 True = Inr a0"
    by (simp add: a0_def new_agent_Inr)
  note t = trimmed_context_bound[OF h1 a_def]
  have "int (length (chat_history a)) \<le> 3 * 1 + 1" using t by simp
  moreover have "hd (chat_history a) = system_message" using t by auto
  ultimately show ?thesis
    unfolding a0_def[symmetric] a_def[symmetric] using h1 by simp
qed

end
